theory Spec2Isabelle
  imports Main "HOL-Library.Word" "HOL-Library.Char_ord" "HOL-Library.List_Lexorder"
begin

section \<open>The data of \<^verbatim>\<open>lehash.py\<close>\<close>

text \<open>
  \<^verbatim>\<open>lehash.py\<close> computes digests of files with the kernel's AF_ALG hashing sockets.
  The program is a sequence of system calls; what the kernel answers is outside the
  program.  The embedding therefore threads a world through every call: the kernel's
  hidden state, the table of open regular files with their read positions, and the
  log of the calls made so far with what the kernel answered.  The kernel itself is a
  parameter, a record of answer functions over its hidden state, so that every theorem
  holds for every kernel unless it names a condition on it.
\<close>

type_synonym byte = "8 word"
type_synonym bytes = "byte list"

text \<open>The exceptions the program can end with: \<^verbatim>\<open>OSError(errno, ...)\<close>,
  the \<^verbatim>\<open>KeyError\<close> of a failed dict lookup, and the \<^verbatim>\<open>SystemExit\<close> of argparse.\<close>

datatype exn = OSError nat | KeyError string | SystemExit nat

text \<open>\<^verbatim>\<open>class _sockaddr_alg(ctypes.Structure)\<close>\<close>

record sockaddr_alg =
  salg_family :: "16 word"
  salg_type :: string
  salg_feat :: "32 word"
  salg_mask :: "32 word"
  salg_name :: string

text \<open>One entry of the log per call that reaches the operating system, with its
  arguments and its answer (\<open>Inl\<close> an errno where the Python call raises).\<close>

datatype event =
    EvSocket int int int "nat + int"
  | EvBind int sockaddr_alg int
  | EvSetsockopt int int int bytes nat int
  | EvAccept int int
  | EvClose int
  | EvSendfile int int bytes "nat + nat"
  | EvLseek int nat "nat + nat"
  | EvRead int nat "nat + bytes"
  | EvOpen string "nat + int"
  | EvFlock int "nat + unit"
  | EvFstat int "nat + nat"
  | EvPrint string

record 'k kernel =
  k_socket :: "'k \<Rightarrow> int \<Rightarrow> int \<Rightarrow> int \<Rightarrow> (nat + int) \<times> 'k"
  k_bind :: "'k \<Rightarrow> int \<Rightarrow> sockaddr_alg \<Rightarrow> (int \<times> nat) \<times> 'k"
  k_setsockopt :: "'k \<Rightarrow> int \<Rightarrow> int \<Rightarrow> int \<Rightarrow> bytes \<Rightarrow> nat \<Rightarrow> (int \<times> nat) \<times> 'k"
  k_accept :: "'k \<Rightarrow> int \<Rightarrow> (int \<times> nat) \<times> 'k"
  k_sendfile :: "'k \<Rightarrow> int \<Rightarrow> bytes \<Rightarrow> (nat + nat) \<times> 'k"
  k_lseek :: "'k \<Rightarrow> int \<Rightarrow> (nat + unit) \<times> 'k"
  k_read :: "'k \<Rightarrow> int \<Rightarrow> nat \<Rightarrow> (nat + bytes) \<times> 'k"
  k_open :: "'k \<Rightarrow> string \<Rightarrow> (nat + int \<times> bytes) \<times> 'k"
  k_flock :: "'k \<Rightarrow> int \<Rightarrow> (nat + unit) \<times> 'k"

record 'k world =
  kst :: 'k
  files :: "int \<Rightarrow> (bytes \<times> nat) option"
  trace :: "event list"

definition emit :: "event \<Rightarrow> 'k world \<Rightarrow> 'k world" where
  "emit e w = w\<lparr>trace := trace w @ [e]\<rparr>"

definition EBADF :: nat where "EBADF = 9"

section \<open>The calls the program makes\<close>

text \<open>\<^verbatim>\<open>socket.socket(family, type, proto)\<close>: raises \<^verbatim>\<open>OSError\<close> or returns the socket.\<close>

definition socket_socket :: "'k kernel \<Rightarrow> int \<Rightarrow> int \<Rightarrow> int \<Rightarrow> 'k world \<Rightarrow> (exn + int) \<times> 'k world" where
  "socket_socket K fam ty proto w =
     (case k_socket K (kst w) fam ty proto of (r, k') \<Rightarrow>
        (case r of Inl errno \<Rightarrow> Inl (OSError errno) | Inr s \<Rightarrow> Inr s,
         emit (EvSocket fam ty proto r) (w\<lparr>kst := k'\<rparr>)))"

text \<open>\<^verbatim>\<open>_libc.bind\<close>, \<^verbatim>\<open>_libc.setsockopt\<close> and \<^verbatim>\<open>_libc.accept\<close> are C calls through
  ctypes: they never raise, they return an int, and \<^verbatim>\<open>ctypes.get_errno()\<close> reads the
  errno the call left.  The model returns both.\<close>

definition libc_bind :: "'k kernel \<Rightarrow> int \<Rightarrow> sockaddr_alg \<Rightarrow> 'k world \<Rightarrow> (int \<times> nat) \<times> 'k world" where
  "libc_bind K fd addr w =
     (case k_bind K (kst w) fd addr of (res, k') \<Rightarrow>
        (res, emit (EvBind fd addr (fst res)) (w\<lparr>kst := k'\<rparr>)))"

definition libc_setsockopt ::
  "'k kernel \<Rightarrow> int \<Rightarrow> int \<Rightarrow> int \<Rightarrow> bytes \<Rightarrow> nat \<Rightarrow> 'k world \<Rightarrow> (int \<times> nat) \<times> 'k world" where
  "libc_setsockopt K fd level opt val len w =
     (case k_setsockopt K (kst w) fd level opt val len of (res, k') \<Rightarrow>
        (res, emit (EvSetsockopt fd level opt val len (fst res)) (w\<lparr>kst := k'\<rparr>)))"

definition libc_accept :: "'k kernel \<Rightarrow> int \<Rightarrow> 'k world \<Rightarrow> (int \<times> nat) \<times> 'k world" where
  "libc_accept K fd w =
     (case k_accept K (kst w) fd of (res, k') \<Rightarrow>
        (res, emit (EvAccept fd (fst res)) (w\<lparr>kst := k'\<rparr>)))"

text \<open>\<^verbatim>\<open>sock.close()\<close>, \<^verbatim>\<open>os.close(fd)\<close> and the close at the end of
  \<^verbatim>\<open>with open(path) as fp\<close>: the descriptor leaves the table of open files.  Closing is
  taken to succeed.\<close>

definition os_close :: "int \<Rightarrow> 'k world \<Rightarrow> 'k world" where
  "os_close fd w = emit (EvClose fd) (w\<lparr>files := (files w)(fd := None)\<rparr>)"

text \<open>\<^verbatim>\<open>os.sendfile(out, in, None, count)\<close>: with offset \<^verbatim>\<open>None\<close> the bytes are taken from
  the current position of \<^verbatim>\<open>in\<close>, which advances by the number of bytes sent.  The kernel
  is offered at most \<^verbatim>\<open>count\<close> bytes and answers how many it took.\<close>

definition os_sendfile :: "'k kernel \<Rightarrow> int \<Rightarrow> int \<Rightarrow> nat \<Rightarrow> 'k world \<Rightarrow> (exn + nat) \<times> 'k world" where
  "os_sendfile K out inp count w =
     (case files w inp of
        None \<Rightarrow> (Inl (OSError EBADF), emit (EvSendfile out inp [] (Inl EBADF)) w)
      | Some (content, pos) \<Rightarrow>
          (let offered = take count (drop pos content) in
           case k_sendfile K (kst w) out offered of
             (Inl errno, k') \<Rightarrow>
               (Inl (OSError errno), emit (EvSendfile out inp offered (Inl errno)) (w\<lparr>kst := k'\<rparr>))
           | (Inr n, k') \<Rightarrow>
               (let sent = min n (length offered) in
                (Inr sent, emit (EvSendfile out inp offered (Inr sent))
                             (w\<lparr>kst := k', files := (files w)(inp \<mapsto> (content, pos + sent))\<rparr>)))))"

text \<open>\<^verbatim>\<open>os.lseek(fd, pos, os.SEEK_SET)\<close>\<close>

definition os_lseek :: "'k kernel \<Rightarrow> int \<Rightarrow> nat \<Rightarrow> 'k world \<Rightarrow> (exn + nat) \<times> 'k world" where
  "os_lseek K fd pos w =
     (case files w fd of
        None \<Rightarrow> (Inl (OSError EBADF), emit (EvLseek fd pos (Inl EBADF)) w)
      | Some (content, old) \<Rightarrow>
          (case k_lseek K (kst w) fd of
             (Inl errno, k') \<Rightarrow>
               (Inl (OSError errno), emit (EvLseek fd pos (Inl errno)) (w\<lparr>kst := k'\<rparr>))
           | (Inr u, k') \<Rightarrow>
               (Inr pos, emit (EvLseek fd pos (Inr pos))
                            (w\<lparr>kst := k', files := (files w)(fd \<mapsto> (content, pos))\<rparr>))))"

text \<open>\<^verbatim>\<open>os.read(fd, n)\<close>: raises \<^verbatim>\<open>OSError\<close> or returns the bytes the kernel hands over.\<close>

definition os_read :: "'k kernel \<Rightarrow> int \<Rightarrow> nat \<Rightarrow> 'k world \<Rightarrow> (exn + bytes) \<times> 'k world" where
  "os_read K fd n w =
     (case k_read K (kst w) fd n of (r, k') \<Rightarrow>
        (case r of Inl errno \<Rightarrow> Inl (OSError errno) | Inr b \<Rightarrow> Inr b,
         emit (EvRead fd n r) (w\<lparr>kst := k'\<rparr>)))"

text \<open>\<^verbatim>\<open>open(path)\<close> followed by \<^verbatim>\<open>fp.fileno()\<close>: a new descriptor at position 0.\<close>

definition builtin_open :: "'k kernel \<Rightarrow> string \<Rightarrow> 'k world \<Rightarrow> (exn + int) \<times> 'k world" where
  "builtin_open K path w =
     (case k_open K (kst w) path of
        (Inl errno, k') \<Rightarrow> (Inl (OSError errno), emit (EvOpen path (Inl errno)) (w\<lparr>kst := k'\<rparr>))
      | (Inr (fd, content), k') \<Rightarrow>
          (Inr fd, emit (EvOpen path (Inr fd))
                     (w\<lparr>kst := k', files := (files w)(fd \<mapsto> (content, 0))\<rparr>)))"

text \<open>\<^verbatim>\<open>fcntl.flock(fileno, fcntl.LOCK_SH)\<close>\<close>

definition fcntl_flock :: "'k kernel \<Rightarrow> int \<Rightarrow> 'k world \<Rightarrow> (exn + unit) \<times> 'k world" where
  "fcntl_flock K fd w =
     (case k_flock K (kst w) fd of (r, k') \<Rightarrow>
        (case r of Inl errno \<Rightarrow> Inl (OSError errno) | Inr u \<Rightarrow> Inr (),
         emit (EvFlock fd r) (w\<lparr>kst := k'\<rparr>)))"

text \<open>\<^verbatim>\<open>os.fstat(fileno).st_size\<close>\<close>

definition os_fstat_size :: "int \<Rightarrow> 'k world \<Rightarrow> (exn + nat) \<times> 'k world" where
  "os_fstat_size fd w =
     (case files w fd of
        None \<Rightarrow> (Inl (OSError EBADF), emit (EvFstat fd (Inl EBADF)) w)
      | Some (content, pos) \<Rightarrow> (Inr (length content), emit (EvFstat fd (Inr (length content))) w))"

section \<open>\<^verbatim>\<open>class HashDescriptor\<close>\<close>

record hash_descriptor =
  hd_fileno :: int
  digestsize :: nat

text \<open>The loop of \<^verbatim>\<open>HashDescriptor.digest\<close>:
  \<^verbatim>\<open>while size < self.digestsize: b = os.read(self.fileno, self.digestsize - size); size += len(b); buff += b\<close>.
  Nothing in the loop bounds the number of rounds, so it is a partial function: \<open>None\<close> is
  the run that never leaves the loop.\<close>

partial_function (option) read_loop ::
  "'k kernel \<Rightarrow> hash_descriptor \<Rightarrow> bytes \<Rightarrow> nat \<Rightarrow> 'k world \<Rightarrow> ((exn + bytes) \<times> 'k world) option"
where
  "read_loop K self buff sz w =
     (if sz < digestsize self then
        (case os_read K (hd_fileno self) (digestsize self - sz) w of
           (Inl e, w') \<Rightarrow> Some (Inl e, w')
         | (Inr b, w') \<Rightarrow> read_loop K self (buff @ b) (sz + length b) w')
      else Some (Inr buff, w))"

text \<open>\<^verbatim>\<open>HashDescriptor.digest(self, fileno, size)\<close>\<close>

definition digest ::
  "'k kernel \<Rightarrow> hash_descriptor \<Rightarrow> int \<Rightarrow> nat \<Rightarrow> 'k world \<Rightarrow> ((exn + bytes) \<times> 'k world) option" where
  "digest K self fileno sz w =
     (case os_sendfile K (hd_fileno self) fileno sz w of
        (Inl e, w1) \<Rightarrow> Some (Inl e, w1)
      | (Inr sent, w1) \<Rightarrow>
          (case os_lseek K fileno 0 w1 of
             (Inl e, w2) \<Rightarrow> Some (Inl e, w2)
           | (Inr p, w2) \<Rightarrow> read_loop K self [] 0 w2))"

section \<open>\<^verbatim>\<open>class Hash\<close> and its subclasses\<close>

datatype hash_class = HashCRC32C | HashMD5 | HashSHA1 | HashSHA224 | HashSHA256

definition AF_ALG :: int where "AF_ALG = 38"
definition SOL_ALG :: int where "SOL_ALG = 279"
definition ALG_SET_KEY :: int where "ALG_SET_KEY = 1"
definition SOCK_SEQPACKET :: int where "SOCK_SEQPACKET = 5"
definition ALG_TYPE :: string where "ALG_TYPE = ''hash''"

fun ALG_NAME :: "hash_class \<Rightarrow> string" where
  "ALG_NAME HashCRC32C = ''crc32c''"
| "ALG_NAME HashMD5 = ''md5''"
| "ALG_NAME HashSHA1 = ''sha1''"
| "ALG_NAME HashSHA224 = ''sha224''"
| "ALG_NAME HashSHA256 = ''sha256''"

fun ALG_BYTE :: "hash_class \<Rightarrow> nat" where
  "ALG_BYTE HashCRC32C = 4"
| "ALG_BYTE HashMD5 = 16"
| "ALG_BYTE HashSHA1 = 20"
| "ALG_BYTE HashSHA224 = 28"
| "ALG_BYTE HashSHA256 = 32"

record hash_obj =
  sock :: int
  algo :: sockaddr_alg
  cls :: hash_class

text \<open>\<^verbatim>\<open>prepare(cls, sock)\<close>: the base class returns the socket as it is, \<^verbatim>\<open>HashCRC32C\<close>
  overrides it and sets the key \<^verbatim>\<open>b'\xff' * cls.ALG_BYTE\<close>.\<close>

definition prepare :: "'k kernel \<Rightarrow> hash_class \<Rightarrow> int \<Rightarrow> 'k world \<Rightarrow> (exn + int) \<times> 'k world" where
  "prepare K c s w =
     (case c of
        HashCRC32C \<Rightarrow>
          (case libc_setsockopt K s SOL_ALG ALG_SET_KEY
                  (replicate (ALG_BYTE c) 0xFF) (ALG_BYTE c) w of
             ((r, n), w1) \<Rightarrow>
               if r < 0 then (Inl (OSError n), os_close s w1) else (Inr s, w1))
      | _ \<Rightarrow> (Inr s, w))"

text \<open>\<^verbatim>\<open>Hash.__init__\<close>\<close>

definition Hash_init :: "'k kernel \<Rightarrow> hash_class \<Rightarrow> 'k world \<Rightarrow> (exn + hash_obj) \<times> 'k world" where
  "Hash_init K c w =
     (case socket_socket K AF_ALG SOCK_SEQPACKET 0 w of
        (Inl e, w1) \<Rightarrow> (Inl e, w1)
      | (Inr s, w1) \<Rightarrow>
          (let a = \<lparr>salg_family = word_of_int AF_ALG, salg_type = ALG_TYPE, salg_feat = 0,
                    salg_mask = 0, salg_name = ALG_NAME c\<rparr> in
           case libc_bind K s a w1 of
             ((r, n), w2) \<Rightarrow>
               if r < 0 then (Inl (OSError n), os_close s w2)
               else (case prepare K c s w2 of
                       (Inl e, w3) \<Rightarrow> (Inl e, w3)
                     | (Inr s', w3) \<Rightarrow> (Inr \<lparr>sock = s', algo = a, cls = c\<rparr>, w3))))"

text \<open>\<^verbatim>\<open>Hash.__del__\<close>: an object whose construction finished owns \<^verbatim>\<open>self.sock\<close> and
  closes it; one whose \<^verbatim>\<open>__init__\<close> raised has no \<^verbatim>\<open>sock\<close> attribute and closes nothing.\<close>

definition Hash_del :: "hash_obj \<Rightarrow> 'k world \<Rightarrow> 'k world" where
  "Hash_del self w = os_close (sock self) w"

text \<open>\<^verbatim>\<open>Hash.open\<close>, a \<^verbatim>\<open>contextlib.contextmanager\<close>: \<open>body\<close> is the block of the
  \<^verbatim>\<open>with\<close> statement.  The \<^verbatim>\<open>finally\<close> clause runs when the block ends or raises; when
  \<^verbatim>\<open>accept\<close> failed its guard \<^verbatim>\<open>fileno >= 0\<close> is false.\<close>

definition Hash_open ::
  "'k kernel \<Rightarrow> hash_obj \<Rightarrow> (hash_descriptor \<Rightarrow> 'k world \<Rightarrow> ((exn + 'a) \<times> 'k world) option)
     \<Rightarrow> 'k world \<Rightarrow> ((exn + 'a) \<times> 'k world) option" where
  "Hash_open K self body w =
     (case libc_accept K (sock self) w of
        ((fileno, n), w1) \<Rightarrow>
          if fileno < 0 then Some (Inl (OSError n), w1)
          else (case body \<lparr>hd_fileno = fileno, digestsize = ALG_BYTE (cls self)\<rparr> w1 of
                  None \<Rightarrow> None
                | Some (r, w2) \<Rightarrow> Some (r, os_close fileno w2)))"

text \<open>\<^verbatim>\<open>Hash.algorithm()\<close>: the dict from names to classes, filled in the order of
  \<^verbatim>\<open>__subclasses__()\<close>; the subclasses have no subclasses of their own.\<close>

definition subclasses :: "hash_class list" where
  "subclasses = [HashCRC32C, HashMD5, HashSHA1, HashSHA224, HashSHA256]"

definition algorithm :: "string \<Rightarrow> hash_class option" where
  "algorithm = fold (\<lambda>c d. d(ALG_NAME c \<mapsto> c)) subclasses Map.empty"

text \<open>\<^verbatim>\<open>Hash.instance(name)\<close> is \<^verbatim>\<open>cls.algorithm()[name]()\<close>\<close>

definition instance_of :: "'k kernel \<Rightarrow> string \<Rightarrow> 'k world \<Rightarrow> (exn + hash_obj) \<times> 'k world" where
  "instance_of K name w =
     (case algorithm name of
        None \<Rightarrow> (Inl (KeyError name), w)
      | Some c \<Rightarrow> Hash_init K c w)"

section \<open>\<^verbatim>\<open>main\<close>\<close>

text \<open>\<^verbatim>\<open>codecs.encode(digest, 'hex').decode()\<close>\<close>

definition hexdigit :: "nat \<Rightarrow> char" where
  "hexdigit n = ''0123456789abcdef'' ! (n mod 16)"

definition hexlify :: "bytes \<Rightarrow> string" where
  "hexlify bs = concat (map (\<lambda>b. [hexdigit (unat b div 16), hexdigit (unat b mod 16)]) bs)"

text \<open>The block of \<^verbatim>\<open>with open(path) as fp\<close>\<close>

definition hash_one ::
  "'k kernel \<Rightarrow> hash_descriptor \<Rightarrow> string \<Rightarrow> int \<Rightarrow> 'k world \<Rightarrow> ((exn + unit) \<times> 'k world) option" where
  "hash_one K desc path fileno w =
     (case fcntl_flock K fileno w of
        (Inl e, w1) \<Rightarrow> Some (Inl e, w1)
      | (Inr u, w1) \<Rightarrow>
          (case os_fstat_size fileno w1 of
             (Inl e, w2) \<Rightarrow> Some (Inl e, w2)
           | (Inr n, w2) \<Rightarrow>
               (case digest K desc fileno n w2 of
                  None \<Rightarrow> None
                | Some (Inl e, w3) \<Rightarrow> Some (Inl e, w3)
                | Some (Inr d, w3) \<Rightarrow>
                    Some (Inr (), emit (EvPrint (hexlify d @ ''  '' @ path)) w3))))"

text \<open>\<^verbatim>\<open>for path in args.files: with open(path) as fp: ...\<close>; the file is closed when its
  block ends or raises, and an exception ends the loop.\<close>

fun hash_files ::
  "'k kernel \<Rightarrow> hash_descriptor \<Rightarrow> string list \<Rightarrow> 'k world \<Rightarrow> ((exn + unit) \<times> 'k world) option" where
  "hash_files K desc [] w = Some (Inr (), w)"
| "hash_files K desc (path # paths) w =
     (case builtin_open K path w of
        (Inl e, w1) \<Rightarrow> Some (Inl e, w1)
      | (Inr fileno, w1) \<Rightarrow>
          (case hash_one K desc path fileno w1 of
             None \<Rightarrow> None
           | Some (Inl e, w2) \<Rightarrow> Some (Inl e, os_close fileno w2)
           | Some (Inr u, w2) \<Rightarrow> hash_files K desc paths (os_close fileno w2)))"

text \<open>\<^verbatim>\<open>digs = sorted(Hash.algorithm().keys())\<close>: the keys of the dict are the names of
  the subclasses, each once.\<close>

definition algorithm_keys :: "string list" where
  "algorithm_keys = remdups (map ALG_NAME subclasses)"

definition digs :: "string list" where
  "digs = sort algorithm_keys"

text \<open>\<^verbatim>\<open>main\<close>, from the parsed arguments on: \<open>alg\<close> is the value of \<^verbatim>\<open>-a\<close> when given
  (its default is \<^verbatim>\<open>'crc32c'\<close>, and argparse exits with status 2 on a name outside
  \<^verbatim>\<open>choices\<close>), \<open>paths\<close> is \<^verbatim>\<open>args.files\<close>.  The \<^verbatim>\<open>Hash\<close> object is a temporary of the
  \<^verbatim>\<open>with\<close> statement: once the block has been entered it is finalised when the statement
  is left.  When \<^verbatim>\<open>accept\<close> failed, the \<^verbatim>\<open>OSError\<close> was raised inside the generator of
  \<^verbatim>\<open>Hash.open\<close>; its traceback holds that frame and with it the object, which is therefore
  not finalised, and its socket not closed, before \<^verbatim>\<open>main\<close> has raised.\<close>

definition main ::
  "'k kernel \<Rightarrow> string option \<Rightarrow> string list \<Rightarrow> 'k world \<Rightarrow> ((exn + unit) \<times> 'k world) option" where
  "main K alg paths w =
     (let name = (case alg of None \<Rightarrow> ''crc32c'' | Some a \<Rightarrow> a) in
      if name \<notin> set digs then Some (Inl (SystemExit 2), w)
      else (case instance_of K name w of
              (Inl e, w1) \<Rightarrow> Some (Inl e, w1)
            | (Inr h, w1) \<Rightarrow>
                (case Hash_open K h (\<lambda>desc. hash_files K desc paths) w1 of
                   None \<Rightarrow> None
                 | Some (r, w2) \<Rightarrow>
                     Some (r, if fst (fst (libc_accept K (sock h) w1)) < 0 then w2
                              else Hash_del h w2))))"

section \<open>Reading the log\<close>

text \<open>The part of the log written between two worlds.\<close>

definition new_events :: "'k world \<Rightarrow> 'k world \<Rightarrow> event list" where
  "new_events w w' = drop (length (trace w)) (trace w')"

fun is_socket :: "event \<Rightarrow> bool" where
  "is_socket (EvSocket fam ty proto r) = True"
| "is_socket e = False"

fun is_accept :: "event \<Rightarrow> bool" where
  "is_accept (EvAccept s r) = True"
| "is_accept e = False"

fun is_sendfile :: "event \<Rightarrow> bool" where
  "is_sendfile (EvSendfile out inp bs r) = True"
| "is_sendfile e = False"

fun is_read :: "event \<Rightarrow> bool" where
  "is_read (EvRead fd n r) = True"
| "is_read e = False"

fun is_print :: "event \<Rightarrow> bool" where
  "is_print (EvPrint line) = True"
| "is_print e = False"

text \<open>The bytes a read handed to the program.\<close>

fun read_payload :: "event \<Rightarrow> bytes" where
  "read_payload (EvRead fd n (Inr b)) = b"
| "read_payload e = []"

text \<open>The reads of one run of the loop on descriptor \<open>fd\<close> with digest size \<open>d\<close>, entered
  with \<open>acc\<close> bytes collected: each read asks for the \<open>d - acc\<close> bytes still missing, the
  next one starts from what the previous one delivered, a read that raises is the last
  one, and the run stops once \<open>d\<close> bytes are there.\<close>

fun loop_reads :: "int \<Rightarrow> nat \<Rightarrow> nat \<Rightarrow> event list \<Rightarrow> bool" where
  "loop_reads fd d acc [] = True"
| "loop_reads fd d acc (e # es) =
     (case e of
        EvRead fd' n r \<Rightarrow>
          acc < d \<and> fd' = fd \<and> n = d - acc \<and>
          (case r of Inl errno \<Rightarrow> es = [] | Inr b \<Rightarrow> loop_reads fd d (acc + length b) es)
      | _ \<Rightarrow> False)"

text \<open>The descriptors a log leaves open: those it created and did not close.\<close>

fun live :: "int list \<Rightarrow> event list \<Rightarrow> int list" where
  "live fds [] = fds"
| "live fds (e # es) =
     live (case e of
             EvSocket fam ty proto (Inr s) \<Rightarrow> fds @ [s]
           | EvAccept s r \<Rightarrow> (if 0 \<le> r then fds @ [r] else fds)
           | EvOpen path (Inr fd) \<Rightarrow> fds @ [fd]
           | EvClose fd \<Rightarrow> remove1 fd fds
           | _ \<Rightarrow> fds) es"

text \<open>What a call of the file loop may put in the log when its session descriptor is
  \<open>fd\<close>: no socket is created, bound, keyed or accepted, and every transfer and every
  read goes to \<open>fd\<close>.\<close>

fun file_event :: "int \<Rightarrow> event \<Rightarrow> bool" where
  "file_event fd (EvSocket fam ty proto r) = False"
| "file_event fd (EvBind s a r) = False"
| "file_event fd (EvSetsockopt s l opt v n r) = False"
| "file_event fd (EvAccept s r) = False"
| "file_event fd (EvSendfile out inp bs r) = (out = fd)"
| "file_event fd (EvRead fd' n r) = (fd' = fd)"
| "file_event fd e = True"

text \<open>What the block of one file may put in the log when the session descriptor is \<open>fd\<close>
  and the file's descriptor is \<open>f\<close>: the lock and the size of \<open>f\<close>, the transfer from \<open>f\<close> to
  \<open>fd\<close>, the seek on \<open>f\<close>, reads on \<open>fd\<close>, the printed line.  No open and no close.\<close>

fun inner_event :: "int \<Rightarrow> int \<Rightarrow> event \<Rightarrow> bool" where
  "inner_event fd f (EvFlock f' r) = (f' = f)"
| "inner_event fd f (EvFstat f' r) = (f' = f)"
| "inner_event fd f (EvSendfile out inp bs r) = (out = fd \<and> inp = f)"
| "inner_event fd f (EvLseek f' pos r) = (f' = f)"
| "inner_event fd f (EvRead fd' n r) = (fd' = fd)"
| "inner_event fd f (EvPrint line) = True"
| "inner_event fd f e = False"

text \<open>The log of the loop over the files, read from left to right with the descriptor of
  the file that is open at the moment, if any: a file is opened only when none is open; an
  open that fails is the last entry; while \<open>f\<close> is open only the calls of its block occur;
  the only close is that of \<open>f\<close>, after which no file is open; the log does not end while
  a file is open.\<close>

fun files_log :: "int \<Rightarrow> int option \<Rightarrow> event list \<Rightarrow> bool" where
  "files_log fd None [] = True"
| "files_log fd (Some f) [] = False"
| "files_log fd None (e # es) =
     (case e of
        EvOpen path res \<Rightarrow> (case res of Inl errno \<Rightarrow> es = [] | Inr f \<Rightarrow> files_log fd (Some f) es)
      | _ \<Rightarrow> False)"
| "files_log fd (Some f) (e # es) =
     (case e of
        EvClose f' \<Rightarrow> f' = f \<and> files_log fd None es
      | _ \<Rightarrow> inner_event fd f e \<and> files_log fd (Some f) es)"

section \<open>Conditions on the kernel\<close>

text \<open>Every read of a positive number of bytes on descriptor \<open>fd\<close> succeeds and returns at
  least one byte and at most as many as were asked for.\<close>

definition reads_in_range :: "'k kernel \<Rightarrow> int \<Rightarrow> bool" where
  "reads_in_range K fd \<longleftrightarrow>
     (\<forall>k n. 0 < n \<longrightarrow>
        (case fst (k_read K k fd n) of
           Inl errno \<Rightarrow> False
         | Inr b \<Rightarrow> 1 \<le> length b \<and> length b \<le> n))"

text \<open>A transfer to descriptor \<open>out\<close> that succeeds takes all the bytes it is offered.\<close>

definition sendfile_whole :: "'k kernel \<Rightarrow> int \<Rightarrow> bool" where
  "sendfile_whole K out \<longleftrightarrow> (\<forall>k bs m. fst (k_sendfile K k out bs) = Inr m \<longrightarrow> length bs \<le> m)"

text \<open>Every read on descriptor \<open>fd\<close> is at end of stream: it returns no byte.\<close>

definition reads_empty :: "'k kernel \<Rightarrow> int \<Rightarrow> bool" where
  "reads_empty K fd \<longleftrightarrow> (\<forall>k n. fst (k_read K k fd n) = Inr [])"

section \<open>Concrete kernels\<close>

text \<open>A kernel that grants everything: socket 3, session 4, file 5 holding three bytes,
  transfers taken whole, reads answered in full.\<close>

definition K0 :: "unit kernel" where
  "K0 = \<lparr>k_socket = (\<lambda>k fam ty proto. (Inr 3, k)),
         k_bind = (\<lambda>k fd a. ((0, 0), k)),
         k_setsockopt = (\<lambda>k fd l opt v n. ((0, 0), k)),
         k_accept = (\<lambda>k fd. ((4, 0), k)),
         k_sendfile = (\<lambda>k out b. (Inr (length b), k)),
         k_lseek = (\<lambda>k fd. (Inr (), k)),
         k_read = (\<lambda>k fd n. (Inr (replicate n 0xAB), k)),
         k_open = (\<lambda>k p. (Inr (5, [1, 2, 3]), k)),
         k_flock = (\<lambda>k fd. (Inr (), k))\<rparr>"

text \<open>The same kernel with short reads: one byte at a time.\<close>

definition KShort :: "unit kernel" where
  "KShort = K0\<lparr>k_read := (\<lambda>k fd n. (Inr (take n [0xCD]), k))\<rparr>"

text \<open>The same kernel with the session at end of stream: reads return no byte.\<close>

definition KEof :: "unit kernel" where
  "KEof = K0\<lparr>k_read := (\<lambda>k fd n. (Inr [], k))\<rparr>"

text \<open>The same kernel with a bound on what one transfer takes: two bytes.\<close>

definition KCap :: "unit kernel" where
  "KCap = K0\<lparr>k_sendfile := (\<lambda>k out b. (Inr (min 2 (length b)), k))\<rparr>"

text \<open>Kernels that refuse the bind (\<^verbatim>\<open>ENOENT\<close>) and the key (\<^verbatim>\<open>EINVAL\<close>).\<close>

definition KNoBind :: "unit kernel" where
  "KNoBind = K0\<lparr>k_bind := (\<lambda>k fd a. ((- 1, 2), k))\<rparr>"

definition KNoKey :: "unit kernel" where
  "KNoKey = K0\<lparr>k_setsockopt := (\<lambda>k fd l opt v n. ((- 1, 22), k))\<rparr>"

text \<open>A kernel on which no file can be opened (\<^verbatim>\<open>ENOENT\<close>).\<close>

definition KNoOpen :: "unit kernel" where
  "KNoOpen = K0\<lparr>k_open := (\<lambda>k p. (Inl 2, k))\<rparr>"

definition w0 :: "unit world" where
  "w0 = \<lparr>kst = (), files = Map.empty, trace = []\<rparr>"

text \<open>A world in which descriptor 5 is an open file of three bytes at position 0.\<close>

definition w5 :: "unit world" where
  "w5 = \<lparr>kst = (), files = [5 \<mapsto> ([1, 2, 3], 0)], trace = []\<rparr>"

text \<open>A \<^verbatim>\<open>HashMD5\<close> object on socket 3.\<close>

definition md5_obj :: hash_obj where
  "md5_obj = \<lparr>sock = 3,
               algo = \<lparr>salg_family = 38, salg_type = ''hash'', salg_feat = 0, salg_mask = 0,
                        salg_name = ''md5''\<rparr>,
               cls = HashMD5\<rparr>"

definition desc4 :: hash_descriptor where
  "desc4 = \<lparr>hd_fileno = 4, digestsize = 4\<rparr>"

declare read_loop.simps [code]

section \<open>The read loop\<close>

lemma new_events_self: "new_events w w = []"
  by (simp add: new_events_def)

lemma new_events_append: "trace w' = trace w @ evs \<Longrightarrow> new_events w w' = evs"
  by (simp add: new_events_def)

lemma os_read_effect:
  assumes "os_read K fd n w = (r, w')"
  shows "trace w' = trace w @ [EvRead fd n (fst (k_read K (kst w) fd n))]"
    and "files w' = files w"
    and "r = (case fst (k_read K (kst w) fd n) of Inl errno \<Rightarrow> Inl (OSError errno) | Inr b \<Rightarrow> Inr b)"
  using assms by (auto simp: os_read_def emit_def split: prod.splits)

lemma read_loop_done:
  "\<not> sz < digestsize self \<Longrightarrow> read_loop K self buff sz w = Some (Inr buff, w)"
  by (subst read_loop.simps) simp

lemma read_loop_raise:
  "sz < digestsize self \<Longrightarrow> os_read K (hd_fileno self) (digestsize self - sz) w = (Inl e, w')
     \<Longrightarrow> read_loop K self buff sz w = Some (Inl e, w')"
  by (subst read_loop.simps) simp

lemma read_loop_step:
  "sz < digestsize self \<Longrightarrow> os_read K (hd_fileno self) (digestsize self - sz) w = (Inr b, w')
     \<Longrightarrow> read_loop K self buff sz w = read_loop K self (buff @ b) (sz + length b) w'"
  by (subst read_loop.simps) simp

text \<open>A loop whose reads all return no byte never returns.\<close>

lemma read_loop_stuck:
  assumes run: "read_loop K self buff sz w = Some y"
  shows "reads_empty K (hd_fileno self) \<longrightarrow> \<not> sz < digestsize self"
proof (rule read_loop.raw_induct
    [where P = "\<lambda>K self buff sz w y. reads_empty K (hd_fileno self) \<longrightarrow> \<not> sz < digestsize self",
     OF _ run], goal_cases)
  case (1 f K self buff sz w y)
  show ?case
  proof (intro impI notI)
    assume e: "reads_empty K (hd_fileno self)" and lt: "sz < digestsize self"
    obtain r w' where rd: "os_read K (hd_fileno self) (digestsize self - sz) w = (r, w')"
      by (cases "os_read K (hd_fileno self) (digestsize self - sz) w")
    from os_read_effect(3)[OF rd] e have r: "r = Inr []"
      by (simp add: reads_empty_def)
    from 1(2) rd r lt have "f K self buff sz w' = Some y" by simp
    from 1(1)[OF this] e lt show False by simp
  qed
qed

lemma read_loop_empty_None:
  "reads_empty K (hd_fileno self) \<Longrightarrow> sz < digestsize self \<Longrightarrow> read_loop K self buff sz w = None"
  using read_loop_stuck[of K self buff sz w] by (cases "read_loop K self buff sz w") auto

text \<open>What a returning loop has done: the files are untouched, the log has grown by the
  reads of the loop, and a returned buffer is the old one followed by what was read.\<close>

lemma read_loop_sound:
  assumes run: "read_loop K self buff sz w = Some y"
  shows "files (snd y) = files w \<and>
     (\<exists>evs. trace (snd y) = trace w @ evs \<and> loop_reads (hd_fileno self) (digestsize self) sz evs \<and>
        (\<forall>e \<in> set evs. is_read e) \<and>
        (\<forall>b. fst y = Inr b \<longrightarrow> b = buff @ concat (map read_payload evs)))"
proof (rule read_loop.raw_induct
    [where P = "\<lambda>K self buff sz w y. files (snd y) = files w \<and>
     (\<exists>evs. trace (snd y) = trace w @ evs \<and> loop_reads (hd_fileno self) (digestsize self) sz evs \<and>
        (\<forall>e \<in> set evs. is_read e) \<and>
        (\<forall>b. fst y = Inr b \<longrightarrow> b = buff @ concat (map read_payload evs)))", OF _ run],
    goal_cases)
  case (1 f K self buff sz w y)
  show ?case
  proof (cases "sz < digestsize self")
    case False
    with 1(2) have "y = (Inr buff, w)" by simp
    then show ?thesis by simp
  next
    case True
    let ?n = "digestsize self - sz"
    obtain r w' where rd: "os_read K (hd_fileno self) ?n w = (r, w')"
      by (cases "os_read K (hd_fileno self) ?n w")
    note t = os_read_effect[OF rd]
    show ?thesis
    proof (cases "fst (k_read K (kst w) (hd_fileno self) ?n)")
      case (Inl errno)
      with t(3) have "r = Inl (OSError errno)" by simp
      with 1(2) True rd have y: "y = (Inl (OSError errno), w')" by simp
      have "trace (snd y) = trace w @ [EvRead (hd_fileno self) ?n (Inl errno)]"
        using y t(1) Inl by simp
      moreover have "loop_reads (hd_fileno self) (digestsize self) sz [EvRead (hd_fileno self) ?n (Inl errno)]"
        using True by simp
      ultimately show ?thesis using y t(2) by auto
    next
      case (Inr b)
      with t(3) have "r = Inr b" by simp
      with 1(2) True rd have "f K self (buff @ b) (sz + length b) w' = Some y" by simp
      from 1(1)[OF this] obtain evs where
        ih: "files (snd y) = files w'" "trace (snd y) = trace w' @ evs"
            "loop_reads (hd_fileno self) (digestsize self) (sz + length b) evs"
            "\<forall>e \<in> set evs. is_read e"
            "\<forall>c. fst y = Inr c \<longrightarrow> c = (buff @ b) @ concat (map read_payload evs)"
        by blast
      let ?evs = "EvRead (hd_fileno self) ?n (Inr b) # evs"
      have "trace (snd y) = trace w @ ?evs" using ih(2) t(1) Inr by simp
      moreover have "loop_reads (hd_fileno self) (digestsize self) sz ?evs" using True ih(3) by simp
      moreover have "\<forall>e \<in> set ?evs. is_read e" using ih(4) by simp
      moreover have "\<forall>c. fst y = Inr c \<longrightarrow> c = buff @ concat (map read_payload ?evs)"
        using ih(5) by simp
      ultimately have "\<exists>es. trace (snd y) = trace w @ es \<and>
          loop_reads (hd_fileno self) (digestsize self) sz es \<and> (\<forall>e \<in> set es. is_read e) \<and>
          (\<forall>c. fst y = Inr c \<longrightarrow> c = buff @ concat (map read_payload es))"
        by (intro exI[of _ ?evs] conjI)
      moreover have "files (snd y) = files w" using ih(1) t(2) by simp
      ultimately show ?thesis by (intro conjI)
    qed
  qed
qed

text \<open>With reads in range the loop returns, after at most as many reads as bytes were
  missing, with exactly the missing bytes added.\<close>

lemma read_loop_total:
  assumes rng: "reads_in_range K (hd_fileno self)"
  shows "sz \<le> digestsize self \<Longrightarrow>
    \<exists>buff' w'. read_loop K self buff sz w = Some (Inr buff', w') \<and>
       length buff' = length buff + (digestsize self - sz) \<and>
       length (new_events w w') \<le> digestsize self - sz"
proof (induction "digestsize self - sz" arbitrary: sz buff w rule: less_induct)
  case less
  show ?case
  proof (cases "sz < digestsize self")
    case False
    with less.prems show ?thesis by (simp add: read_loop_done new_events_def)
  next
    case True
    let ?n = "digestsize self - sz"
    obtain r w' where rd: "os_read K (hd_fileno self) ?n w = (r, w')"
      by (cases "os_read K (hd_fileno self) ?n w")
    note t = os_read_effect[OF rd]
    from rng True have "case fst (k_read K (kst w) (hd_fileno self) ?n) of Inl errno \<Rightarrow> False
        | Inr b \<Rightarrow> 1 \<le> length b \<and> length b \<le> ?n"
      by (simp add: reads_in_range_def)
    then obtain b where kb: "fst (k_read K (kst w) (hd_fileno self) ?n) = Inr b"
        and b: "1 \<le> length b" "length b \<le> ?n"
      by (auto split: sum.splits)
    from t(3) kb have r: "r = Inr b" by simp
    have step: "read_loop K self buff sz w = read_loop K self (buff @ b) (sz + length b) w'"
      using read_loop_step[OF True] rd r by simp
    have "digestsize self - (sz + length b) < digestsize self - sz" using b True by arith
    moreover have "sz + length b \<le> digestsize self" using b True by arith
    ultimately obtain buff' w'' where
      ih: "read_loop K self (buff @ b) (sz + length b) w' = Some (Inr buff', w'')"
          "length buff' = length (buff @ b) + (digestsize self - (sz + length b))"
          "length (new_events w' w'') \<le> digestsize self - (sz + length b)"
      using less.hyps[of "sz + length b" "buff @ b" w'] by blast
    from read_loop_sound[OF ih(1)] obtain evs where evs: "trace w'' = trace w' @ evs" by auto
    have "new_events w w'' = EvRead (hd_fileno self) ?n (Inr b) # new_events w' w''"
      using t(1) evs kb by (simp add: new_events_def)
    with ih b True step show ?thesis by (intro exI[of _ buff'] exI[of _ w'']) simp
  qed
qed

section \<open>Termination of the read loop\<close>

text \<open>
  C10.  When every read on the session descriptor returns at least one byte and at most
  the number asked for, the loop of \<^verbatim>\<open>digest\<close> returns after at most \<open>digestsize\<close>
  rounds: it writes at most that many entries to the log, all of them reads.  A read that
  returns no byte leaves the loop where it was (same buffer, same count), and when every
  read returns no byte the loop never returns.
\<close>

theorem read_loop_terminates_within_digestsize:
  "(reads_in_range K (hd_fileno self) \<longrightarrow>
      (\<exists>buff' w'. read_loop K self [] 0 w = Some (Inr buff', w') \<and>
         list_all is_read (new_events w w') \<and>
         length (new_events w w') \<le> digestsize self)) \<and>
   (sz < digestsize self \<and>
    fst (k_read K (kst w) (hd_fileno self) (digestsize self - sz)) = Inr [] \<longrightarrow>
      read_loop K self buff sz w =
      read_loop K self buff sz (snd (os_read K (hd_fileno self) (digestsize self - sz) w))) \<and>
   (reads_empty K (hd_fileno self) \<and> 0 < digestsize self \<longrightarrow>
      read_loop K self [] 0 w = None)"
proof (intro conjI impI)
  assume rng: "reads_in_range K (hd_fileno self)"
  from read_loop_total[OF rng, of 0 "[]" w] obtain buff' w' where
    run: "read_loop K self [] 0 w = Some (Inr buff', w')"
    and len: "length (new_events w w') \<le> digestsize self"
    by auto
  from read_loop_sound[OF run] obtain evs where
    "trace w' = trace w @ evs" "\<forall>e \<in> set evs. is_read e" by auto
  then have "list_all is_read (new_events w w')"
    by (simp add: new_events_def list_all_iff)
  with run len show "\<exists>buff' w'. read_loop K self [] 0 w = Some (Inr buff', w') \<and>
         list_all is_read (new_events w w') \<and> length (new_events w w') \<le> digestsize self"
    by blast
next
  assume a: "sz < digestsize self \<and>
    fst (k_read K (kst w) (hd_fileno self) (digestsize self - sz)) = Inr []"
  obtain r w' where rd: "os_read K (hd_fileno self) (digestsize self - sz) w = (r, w')"
    by (cases "os_read K (hd_fileno self) (digestsize self - sz) w")
  from os_read_effect(3)[OF rd] a have "r = Inr []" by simp
  with rd a read_loop_step[of sz self K w "[]" w' buff]
  show "read_loop K self buff sz w =
      read_loop K self buff sz (snd (os_read K (hd_fileno self) (digestsize self - sz) w))"
    by simp
next
  assume "reads_empty K (hd_fileno self) \<and> 0 < digestsize self"
  then show "read_loop K self [] 0 w = None"
    by (simp add: read_loop_empty_None)
qed

text \<open>With one byte per read the loop of a four-byte digest returns within four reads; at
  end of stream it does not return.\<close>

theorem read_loop_terminates_within_digestsize_witness:
  "reads_in_range KShort 4 \<and>
   (\<exists>buff' w'. read_loop KShort desc4 [] 0 w0 = Some (Inr buff', w') \<and>
      list_all is_read (new_events w0 w') \<and> length (new_events w0 w') \<le> 4) \<and>
   reads_empty KEof 4 \<and>
   read_loop KEof desc4 [] 0 w0 =
     read_loop KEof desc4 [] 0 (snd (os_read KEof 4 4 w0)) \<and>
   read_loop KEof desc4 [] 0 w0 = None"
proof -
  have d: "hd_fileno desc4 = 4" "digestsize desc4 = 4" "0 < digestsize desc4"
    by (simp_all add: desc4_def)
  have g: "reads_in_range KShort 4"
    by (auto simp: reads_in_range_def KShort_def K0_def)
  have e: "reads_empty KEof 4"
    by (simp add: reads_empty_def KEof_def K0_def)
  have z: "fst (k_read KEof (kst w0) 4 4) = Inr []"
    by (simp add: KEof_def K0_def)
  note short = read_loop_terminates_within_digestsize[of KShort desc4 w0 0 "[]", unfolded d]
  note eof = read_loop_terminates_within_digestsize[of KEof desc4 w0 0 "[]", unfolded d]
  have a: "\<exists>buff' w'. read_loop KShort desc4 [] 0 w0 = Some (Inr buff', w') \<and>
      list_all is_read (new_events w0 w') \<and> length (new_events w0 w') \<le> 4"
    using short g by blast
  have b: "read_loop KEof desc4 [] 0 w0 =
     read_loop KEof desc4 [] 0 (snd (os_read KEof 4 4 w0))"
    using eof z by simp
  have c: "read_loop KEof desc4 [] 0 w0 = None"
    using eof e by simp
  from g a e b c show ?thesis by (intro conjI)
qed

section \<open>End of stream while the digest is read\<close>

text \<open>
  C2.  The claim is that \<^verbatim>\<open>digest\<close> fails with an error when a read returns no byte
  before \<open>digestsize\<close> bytes are collected.  On a session at end of stream the call neither
  fails nor returns: for a four-byte digest over the three-byte file 5, with the transfer
  and the seek granted, the loop asks for the same four bytes for ever.
\<close>

theorem digest_spins_at_end_of_stream:
  "digest KEof desc4 5 3 w5 = None"
proof -
  have e: "reads_empty KEof (hd_fileno desc4)"
    by (simp add: reads_empty_def KEof_def K0_def)
  have "0 < digestsize desc4" by (simp add: desc4_def)
  from read_loop_empty_None[OF e this] show ?thesis
    by (simp add: digest_def os_sendfile_def os_lseek_def w5_def KEof_def K0_def emit_def)
qed

section \<open>Names outside the registry\<close>

text \<open>
  C6.  \<^verbatim>\<open>Hash.instance\<close> on a name that is not a key of \<^verbatim>\<open>Hash.algorithm()\<close> raises the
  \<^verbatim>\<open>KeyError\<close> of the dict lookup and leaves the world as it was: nothing is written to
  the log, so no socket is created, bound, keyed or accepted.
\<close>

theorem unknown_algorithm_no_socket:
  "algorithm name = None \<Longrightarrow>
     instance_of K name w = (Inl (KeyError name), w) \<and>
     new_events w (snd (instance_of K name w)) = []"
  by (simp add: instance_of_def new_events_def)

text \<open>\<^verbatim>\<open>sha512\<close> is not registered.\<close>

theorem unknown_algorithm_no_socket_witness:
  "algorithm ''sha512'' = None \<and>
   instance_of K0 ''sha512'' w0 = (Inl (KeyError ''sha512''), w0) \<and>
   new_events w0 (snd (instance_of K0 ''sha512'' w0)) = []"
proof -
  have h: "algorithm ''sha512'' = None"
    by (simp add: algorithm_def subclasses_def)
  from h unknown_algorithm_no_socket[OF h, of K0 w0] show ?thesis by blast
qed

section \<open>One call of digest\<close>

lemma os_sendfile_ok:
  assumes "os_sendfile K out inp n w = (Inr m, w')"
  shows "\<exists>c p. files w inp = Some (c, p) \<and>
           trace w' = trace w @ [EvSendfile out inp (take n (drop p c)) (Inr m)] \<and>
           files w' = (files w)(inp \<mapsto> (c, p + m))"
  using assms
  by (auto simp: os_sendfile_def emit_def Let_def split: option.splits prod.splits sum.splits)

lemma os_sendfile_ok_whole:
  assumes ok: "os_sendfile K out inp n w = (Inr m, w')" and wh: "sendfile_whole K out"
  shows "\<exists>c p. files w inp = Some (c, p) \<and> m = length (take n (drop p c))"
proof -
  from ok obtain c p where f: "files w inp = Some (c, p)"
    by (cases "files w inp") (auto simp: os_sendfile_def)
  let ?bs = "take n (drop p c)"
  obtain a k' where k: "k_sendfile K (kst w) out ?bs = (a, k')"
    by (cases "k_sendfile K (kst w) out ?bs")
  from ok f k obtain m0 where a: "a = Inr m0" and m: "m = min m0 (length ?bs)"
    by (cases a) (auto simp: os_sendfile_def Let_def)
  from wh k a have "length ?bs \<le> m0"
    unfolding sendfile_whole_def by (metis fst_conv)
  with m have "m = length ?bs" by simp
  with f show ?thesis by blast
qed

lemma os_sendfile_raised:
  assumes "os_sendfile K out inp n w = (Inl e, w')"
  shows "\<exists>bs errno. trace w' = trace w @ [EvSendfile out inp bs (Inl errno)] \<and>
           files w' = files w \<and>
           (\<forall>c p. files w inp = Some (c, p) \<longrightarrow> bs = take n (drop p c))"
  using assms
  by (auto simp: os_sendfile_def emit_def Let_def split: option.splits prod.splits sum.splits)

lemma os_lseek_ok:
  assumes "os_lseek K fd pos w = (Inr m, w')"
  shows "\<exists>c p. files w fd = Some (c, p) \<and>
           trace w' = trace w @ [EvLseek fd pos (Inr pos)] \<and>
           files w' = (files w)(fd \<mapsto> (c, pos))"
  using assms
  by (auto simp: os_lseek_def emit_def split: option.splits prod.splits sum.splits)

lemma os_lseek_raised:
  assumes "os_lseek K fd pos w = (Inl e, w')"
  shows "\<exists>errno. trace w' = trace w @ [EvLseek fd pos (Inl errno)] \<and> files w' = files w"
  using assms
  by (auto simp: os_lseek_def emit_def split: option.splits prod.splits sum.splits)

lemma is_read_not_sendfile: "is_read e \<Longrightarrow> \<not> is_sendfile e"
  by (cases e) simp_all

text \<open>The three ways a call of \<^verbatim>\<open>digest\<close> ends.\<close>

lemma digest_cases:
  assumes run: "digest K self fileno n w = Some (r, w')"
  obtains (sendfile_raised) e where
      "os_sendfile K (hd_fileno self) fileno n w = (Inl e, w')" "r = Inl e"
  | (lseek_raised) m w1 e where
      "os_sendfile K (hd_fileno self) fileno n w = (Inr m, w1)"
      "os_lseek K fileno 0 w1 = (Inl e, w')" "r = Inl e"
  | (looped) m w1 p w2 where
      "os_sendfile K (hd_fileno self) fileno n w = (Inr m, w1)"
      "os_lseek K fileno 0 w1 = (Inr p, w2)"
      "read_loop K self [] 0 w2 = Some (r, w')"
proof -
  obtain a w1 where s: "os_sendfile K (hd_fileno self) fileno n w = (a, w1)"
    by (cases "os_sendfile K (hd_fileno self) fileno n w")
  show thesis
  proof (cases a)
    case (Inl e)
    with run s have "r = Inl e" "w1 = w'" by (simp_all add: digest_def)
    with s Inl show thesis by (intro sendfile_raised[of e]) simp_all
  next
    case (Inr m)
    obtain b w2 where l: "os_lseek K fileno 0 w1 = (b, w2)"
      by (cases "os_lseek K fileno 0 w1")
    show thesis
    proof (cases b)
      case (Inl e)
      with run s l Inr have "r = Inl e" "w2 = w'" by (simp_all add: digest_def)
      with s l Inr Inl show thesis by (intro lseek_raised[of m w1 e]) simp_all
    next
      case (Inr p)
      with run s l \<open>a = Inr m\<close> have "read_loop K self [] 0 w2 = Some (r, w')"
        by (simp add: digest_def)
      with s l Inr \<open>a = Inr m\<close> show thesis by (intro looped[of m w1 p w2]) simp_all
    qed
  qed
qed

lemma digest_log:
  assumes run: "digest K self fileno n w = Some (r, w')"
  shows "\<exists>bs res rest. trace w' = trace w @ EvSendfile (hd_fileno self) fileno bs res # rest \<and>
           (\<forall>c p. files w fileno = Some (c, p) \<longrightarrow> bs = take n (drop p c)) \<and>
           ((\<exists>errno. res = Inl errno) \<longrightarrow> rest = []) \<and>
           (\<forall>e \<in> set rest. \<not> is_sendfile e) \<and>
           (sendfile_whole K (hd_fileno self) \<and> rest \<noteq> [] \<longrightarrow> res = Inr (length bs))"
  using run
proof (cases rule: digest_cases)
  case (sendfile_raised e)
  from os_sendfile_raised[OF sendfile_raised(1)] obtain bs errno where
    s: "trace w' = trace w @ [EvSendfile (hd_fileno self) fileno bs (Inl errno)]"
       "\<forall>c p. files w fileno = Some (c, p) \<longrightarrow> bs = take n (drop p c)"
    by blast
  show ?thesis
    by (rule exI[of _ bs], rule exI[of _ "Inl errno"], rule exI[of _ "[]"]) (simp add: s)
next
  case (lseek_raised m w1 e)
  from os_sendfile_ok[OF lseek_raised(1)] obtain c p where
    s: "files w fileno = Some (c, p)"
       "trace w1 = trace w @ [EvSendfile (hd_fileno self) fileno (take n (drop p c)) (Inr m)]"
    by blast
  from os_lseek_raised[OF lseek_raised(2)] obtain errno where
    l: "trace w' = trace w1 @ [EvLseek fileno 0 (Inl errno)]" by blast
  have wh: "sendfile_whole K (hd_fileno self) \<longrightarrow> m = length (take n (drop p c))"
    using os_sendfile_ok_whole[OF lseek_raised(1)] s(1) by auto
  show ?thesis
    by (rule exI[of _ "take n (drop p c)"], rule exI[of _ "Inr m"],
        rule exI[of _ "[EvLseek fileno 0 (Inl errno)]"]) (use wh in \<open>simp add: s l\<close>)
next
  case (looped m w1 p' w2)
  from os_sendfile_ok[OF looped(1)] obtain c p where
    s: "files w fileno = Some (c, p)"
       "trace w1 = trace w @ [EvSendfile (hd_fileno self) fileno (take n (drop p c)) (Inr m)]"
    by blast
  from os_lseek_ok[OF looped(2)] have
    l: "trace w2 = trace w1 @ [EvLseek fileno 0 (Inr 0)]" by blast
  from read_loop_sound[OF looped(3)] obtain evs where
    r: "trace w' = trace w2 @ evs" "\<forall>e \<in> set evs. is_read e" by auto
  from r(2) have ns: "\<forall>e \<in> set evs. \<not> is_sendfile e"
    using is_read_not_sendfile by blast
  have wh: "sendfile_whole K (hd_fileno self) \<longrightarrow> m = length (take n (drop p c))"
    using os_sendfile_ok_whole[OF looped(1)] s(1) by auto
  show ?thesis
    by (rule exI[of _ "take n (drop p c)"], rule exI[of _ "Inr m"],
        rule exI[of _ "EvLseek fileno 0 (Inr 0) # evs"]) (use wh in \<open>simp add: s l r(1) ns\<close>)
qed

text \<open>A call of \<^verbatim>\<open>digest\<close> that returns its buffer.\<close>

lemma digest_returns:
  assumes run: "digest K self fileno n w = Some (Inr buff, w')"
  shows "\<exists>c p m evs.
           files w fileno = Some (c, p) \<and>
           files w' = (files w)(fileno \<mapsto> (c, 0)) \<and>
           trace w' = trace w @ EvSendfile (hd_fileno self) fileno (take n (drop p c)) (Inr m)
                                # EvLseek fileno 0 (Inr 0) # evs \<and>
           loop_reads (hd_fileno self) (digestsize self) 0 evs \<and>
           (\<forall>e \<in> set evs. is_read e) \<and>
           buff = concat (map read_payload evs)"
  using run
proof (cases rule: digest_cases)
  case (looped m w1 p' w2)
  from os_sendfile_ok[OF looped(1)] obtain c p where
    s: "files w fileno = Some (c, p)"
       "trace w1 = trace w @ [EvSendfile (hd_fileno self) fileno (take n (drop p c)) (Inr m)]"
       "files w1 = (files w)(fileno \<mapsto> (c, p + m))"
    by blast
  from os_lseek_ok[OF looped(2)] obtain c' q where
    l0: "files w1 fileno = Some (c', q)"
        "trace w2 = trace w1 @ [EvLseek fileno 0 (Inr 0)]"
        "files w2 = (files w1)(fileno \<mapsto> (c', 0))"
    by blast
  from l0(1) s(3) have "c' = c" by simp
  with l0(3) s(3) have l2: "files w2 = (files w)(fileno \<mapsto> (c, 0))" by simp
  from read_loop_sound[OF looped(3)] obtain evs where
    r: "files w' = files w2" "trace w' = trace w2 @ evs"
       "loop_reads (hd_fileno self) (digestsize self) 0 evs"
       "\<forall>e \<in> set evs. is_read e" "buff = concat (map read_payload evs)"
    by auto
  have t: "trace w' = trace w @ EvSendfile (hd_fileno self) fileno (take n (drop p c)) (Inr m)
                                # EvLseek fileno 0 (Inr 0) # evs"
    using s(2) l0(2) r(2) by simp
  have f: "files w' = (files w)(fileno \<mapsto> (c, 0))" using r(1) l2 by simp
  show ?thesis
    by (rule exI[of _ c], rule exI[of _ p], rule exI[of _ m], rule exI[of _ evs])
       (intro conjI s(1) f t r(3) r(4) r(5))
qed simp_all

section \<open>The log is write-only\<close>

text \<open>No call reads the log: run from a world with another log, every call does the same
  and appends the same entries.\<close>

lemma os_read_relog:
  "os_read K fd n (w\<lparr>trace := t\<rparr>) =
     (fst (os_read K fd n w), (snd (os_read K fd n w))\<lparr>trace := t @ new_events w (snd (os_read K fd n w))\<rparr>)"
  by (simp add: os_read_def emit_def new_events_def split: prod.splits)

lemma os_sendfile_relog:
  "os_sendfile K out inp n (w\<lparr>trace := t\<rparr>) =
     (fst (os_sendfile K out inp n w),
      (snd (os_sendfile K out inp n w))\<lparr>trace := t @ new_events w (snd (os_sendfile K out inp n w))\<rparr>)"
  by (simp add: os_sendfile_def emit_def new_events_def Let_def split: prod.splits option.splits sum.splits)

lemma os_lseek_relog:
  "os_lseek K fd pos (w\<lparr>trace := t\<rparr>) =
     (fst (os_lseek K fd pos w),
      (snd (os_lseek K fd pos w))\<lparr>trace := t @ new_events w (snd (os_lseek K fd pos w))\<rparr>)"
  by (simp add: os_lseek_def emit_def new_events_def split: prod.splits option.splits sum.splits)

lemma read_loop_relog_aux:
  assumes run: "read_loop K self buff sz w = Some y"
  shows "(\<exists>evs. trace (snd y) = trace w @ evs) \<and>
         (\<forall>t. read_loop K self buff sz (w\<lparr>trace := t\<rparr>) =
               Some (fst y, (snd y)\<lparr>trace := t @ new_events w (snd y)\<rparr>))"
proof (rule read_loop.raw_induct
    [where P = "\<lambda>K self buff sz w y. (\<exists>evs. trace (snd y) = trace w @ evs) \<and>
         (\<forall>t. read_loop K self buff sz (w\<lparr>trace := t\<rparr>) =
               Some (fst y, (snd y)\<lparr>trace := t @ new_events w (snd y)\<rparr>))", OF _ run],
    goal_cases)
  case (1 f K self buff sz w y)
  show ?case
  proof (cases "sz < digestsize self")
    case False
    with 1(2) have y: "y = (Inr buff, w)" by simp
    show ?thesis using False by (simp add: y read_loop_done new_events_def)
  next
    case True
    let ?n = "digestsize self - sz"
    obtain r w1 where rd: "os_read K (hd_fileno self) ?n w = (r, w1)"
      by (cases "os_read K (hd_fileno self) ?n w")
    note t = os_read_effect[OF rd]
    have ne: "new_events w w1 = [EvRead (hd_fileno self) ?n (fst (k_read K (kst w) (hd_fileno self) ?n))]"
      using t(1) by (simp add: new_events_def)
    have rl: "\<And>t. os_read K (hd_fileno self) ?n (w\<lparr>trace := t\<rparr>) = (r, w1\<lparr>trace := t @ new_events w w1\<rparr>)"
      using os_read_relog[where K = K and fd = "hd_fileno self" and n = ?n and w = w] rd by simp
    show ?thesis
    proof (cases r)
      case (Inl e)
      with 1(2) True rd have y: "y = (Inl e, w1)" by simp
      have "\<And>t. read_loop K self buff sz (w\<lparr>trace := t\<rparr>) = Some (Inl e, w1\<lparr>trace := t @ new_events w w1\<rparr>)"
        using read_loop_raise[OF True] rl Inl by blast
      with y t(1) show ?thesis by simp
    next
      case (Inr b)
      with 1(2) True rd have "f K self (buff @ b) (sz + length b) w1 = Some y" by simp
      from 1(1)[OF this] obtain evs where
        ih: "trace (snd y) = trace w1 @ evs"
            "\<And>t. read_loop K self (buff @ b) (sz + length b) (w1\<lparr>trace := t\<rparr>) =
               Some (fst y, (snd y)\<lparr>trace := t @ new_events w1 (snd y)\<rparr>)"
        by blast
      have n1: "new_events w (snd y) = new_events w w1 @ new_events w1 (snd y)"
        using ih(1) t(1) by (simp add: new_events_def)
      have "\<And>t. read_loop K self buff sz (w\<lparr>trace := t\<rparr>) =
               Some (fst y, (snd y)\<lparr>trace := t @ new_events w (snd y)\<rparr>)"
      proof -
        fix t
        have "read_loop K self buff sz (w\<lparr>trace := t\<rparr>) =
              read_loop K self (buff @ b) (sz + length b) (w1\<lparr>trace := t @ new_events w w1\<rparr>)"
          using read_loop_step[OF True, where K = K and w = "w\<lparr>trace := t\<rparr>" and b = b] rl[of t] Inr by simp
        also have "\<dots> = Some (fst y, (snd y)\<lparr>trace := (t @ new_events w w1) @ new_events w1 (snd y)\<rparr>)"
          by (rule ih(2))
        finally show "read_loop K self buff sz (w\<lparr>trace := t\<rparr>) =
               Some (fst y, (snd y)\<lparr>trace := t @ new_events w (snd y)\<rparr>)"
          by (simp add: n1)
      qed
      moreover have "\<exists>es. trace (snd y) = trace w @ es" using ih(1) t(1) by simp
      ultimately show ?thesis by blast
    qed
  qed
qed

lemma read_loop_relog:
  "read_loop K self buff sz w = Some (r, w') \<Longrightarrow>
     read_loop K self buff sz (w\<lparr>trace := t\<rparr>) = Some (r, w'\<lparr>trace := t @ new_events w w'\<rparr>)"
  using read_loop_relog_aux[of K self buff sz w "(r, w')"] by simp

lemma digest_relog:
  assumes run: "digest K self fileno n w = Some (r, w')"
  shows "digest K self fileno n (w\<lparr>trace := t\<rparr>) = Some (r, w'\<lparr>trace := t @ new_events w w'\<rparr>)"
  using run
proof (cases rule: digest_cases)
  case (sendfile_raised e)
  with os_sendfile_relog[where K = K and out = "hd_fileno self" and inp = fileno and n = n and w = w and t = t]
  show ?thesis by (simp add: digest_def)
next
  case (lseek_raised m w1 e)
  from os_sendfile_ok[OF lseek_raised(1)] os_lseek_raised[OF lseek_raised(2)]
  have ne: "new_events w w' = new_events w w1 @ new_events w1 w'"
    by (auto simp: new_events_def)
  from lseek_raised
    os_sendfile_relog[where K = K and out = "hd_fileno self" and inp = fileno and n = n and w = w and t = t]
    os_lseek_relog[where K = K and fd = fileno and pos = 0 and w = w1 and t = "t @ new_events w w1"]
  show ?thesis by (simp add: digest_def ne)
next
  case (looped m w1 p w2)
  from os_sendfile_ok[OF looped(1)] os_lseek_ok[OF looped(2)] read_loop_sound[OF looped(3)]
  have ne: "new_events w w' = (new_events w w1 @ new_events w1 w2) @ new_events w2 w'"
    by (auto simp: new_events_def)
  from looped(1,2)
    os_sendfile_relog[where K = K and out = "hd_fileno self" and inp = fileno and n = n and w = w and t = t]
    os_lseek_relog[where K = K and fd = fileno and pos = 0 and w = w1 and t = "t @ new_events w w1"]
  have "digest K self fileno n (w\<lparr>trace := t\<rparr>) =
        read_loop K self [] 0 (w2\<lparr>trace := (t @ new_events w w1) @ new_events w1 w2\<rparr>)"
    by (simp add: digest_def)
  also have "\<dots> = Some (r, w'\<lparr>trace := ((t @ new_events w w1) @ new_events w1 w2) @ new_events w2 w'\<rparr>)"
    by (rule read_loop_relog[OF looped(3)])
  finally show ?thesis by (simp add: ne)
qed

text \<open>Two runs of \<^verbatim>\<open>digest\<close> on the three-byte file 5, with short reads and with full
  reads.\<close>

lemma digest_KShort:
  "\<exists>w'. digest KShort desc4 5 3 w5 = Some (Inr [0xCD, 0xCD, 0xCD, 0xCD], w')"
proof -
  have "map_option fst (digest KShort desc4 5 3 w5) = Some (Inr [0xCD, 0xCD, 0xCD, 0xCD])"
    by code_simp
  then show ?thesis by (cases "digest KShort desc4 5 3 w5") auto
qed

lemma digest_K0:
  "\<exists>w'. digest K0 desc4 5 3 w5 = Some (Inr [0xAB, 0xAB, 0xAB, 0xAB], w') \<and>
     trace w' = [EvSendfile 4 5 [1, 2, 3] (Inr 3), EvLseek 5 0 (Inr 0),
                 EvRead 4 4 (Inr [0xAB, 0xAB, 0xAB, 0xAB])]"
proof -
  have "map_option (\<lambda>(r, w). (r, trace w)) (digest K0 desc4 5 3 w5) =
    Some (Inr [0xAB, 0xAB, 0xAB, 0xAB],
          [EvSendfile 4 5 [1, 2, 3] (Inr 3), EvLseek 5 0 (Inr 0),
           EvRead 4 4 (Inr [0xAB, 0xAB, 0xAB, 0xAB])])"
    by code_simp
  then show ?thesis by (cases "digest K0 desc4 5 3 w5") auto
qed

section \<open>The length of the digest\<close>

text \<open>
  C3.  When every read on the session descriptor returns at least one byte and at most
  the number asked for, a call of \<^verbatim>\<open>digest\<close> that returns hands back exactly
  \<open>digestsize\<close> bytes.  They are the bytes of its reads, in order, and each read asked for
  no more than what was still missing: \<open>digestsize\<close> minus the bytes already collected.
\<close>

theorem digest_returns_digestsize_bytes:
  assumes rng: "reads_in_range K (hd_fileno self)"
    and run: "digest K self fileno n w = Some (Inr buff, w')"
  shows "length buff = digestsize self \<and>
         loop_reads (hd_fileno self) (digestsize self) 0 (filter is_read (new_events w w')) \<and>
         buff = concat (map read_payload (filter is_read (new_events w w')))"
proof -
  from run have len: "length buff = digestsize self"
  proof (cases rule: digest_cases)
    case (looped m w1 p w2)
    from read_loop_total[OF rng, of 0 "[]" w2] looped(3) show ?thesis by auto
  qed simp_all
  from digest_returns[OF run] obtain c p m evs where
    t: "trace w' = trace w @ EvSendfile (hd_fileno self) fileno (take n (drop p c)) (Inr m)
                                # EvLseek fileno 0 (Inr 0) # evs"
    and l: "loop_reads (hd_fileno self) (digestsize self) 0 evs"
    and r: "\<forall>e \<in> set evs. is_read e"
    and b: "buff = concat (map read_payload evs)"
    by blast
  from r have "filter is_read evs = evs" by (simp add: filter_id_conv)
  with t have "filter is_read (new_events w w') = evs" by (simp add: new_events_def)
  with len l b show ?thesis by simp
qed

text \<open>With one byte per read the four bytes of the digest arrive in four reads.\<close>

theorem digest_returns_digestsize_bytes_witness:
  "reads_in_range KShort (hd_fileno desc4) \<and>
   (\<exists>w'. digest KShort desc4 5 3 w5 = Some (Inr [0xCD, 0xCD, 0xCD, 0xCD], w') \<and>
      length [0xCD, 0xCD, 0xCD, 0xCD :: byte] = digestsize desc4 \<and>
      loop_reads (hd_fileno desc4) (digestsize desc4) 0 (filter is_read (new_events w5 w')) \<and>
      [0xCD, 0xCD, 0xCD, 0xCD] = concat (map read_payload (filter is_read (new_events w5 w'))))"
proof -
  have g: "reads_in_range KShort (hd_fileno desc4)"
    by (auto simp: reads_in_range_def KShort_def K0_def)
  from digest_KShort obtain w' where
    run: "digest KShort desc4 5 3 w5 = Some (Inr [0xCD, 0xCD, 0xCD, 0xCD], w')" by blast
  from g run digest_returns_digestsize_bytes[OF g run] show ?thesis by blast
qed

section \<open>The transfer and the reads\<close>

text \<open>
  C9.  The claim is that in every call of \<^verbatim>\<open>digest\<close> all input bytes have been transferred
  into the session before a read of the digest is issued.  The call makes one
  \<^verbatim>\<open>os.sendfile\<close> and drops the count it returns.  On a kernel that takes at most two
  bytes in one transfer, the call on the three-byte file 5 transfers two of the three
  bytes, seeks, and reads the digest: the read is issued while the third byte has never
  been transferred.
\<close>

theorem digest_reads_after_partial_transfer:
  "map_option (\<lambda>(r, w). (r, trace w)) (digest KCap desc4 5 3 w5) =
     Some (Inr [0xAB, 0xAB, 0xAB, 0xAB],
           [EvSendfile 4 5 [1, 2, 3] (Inr 2), EvLseek 5 0 (Inr 0),
            EvRead 4 4 (Inr [0xAB, 0xAB, 0xAB, 0xAB])])"
  by code_simp

section \<open>The read position of the input\<close>

text \<open>
  C4.  After a call of \<^verbatim>\<open>digest\<close> that returns, the input descriptor holds the same
  content at position 0: the seek to 0 is the second entry the call logs, right after the
  transfer and before every read.  When the input was at position 0 before the call and
  the kernel is back in the state it had before the call, a second call on the same
  descriptor returns the same digest and again leaves the position at 0.
\<close>

theorem digest_restores_read_position:
  assumes run: "digest K self fileno n w = Some (Inr buff, w')"
  shows "(\<exists>c p. files w fileno = Some (c, p) \<and> files w' fileno = Some (c, 0)) \<and>
         (\<exists>bs m evs. new_events w w' =
              EvSendfile (hd_fileno self) fileno bs (Inr m) # EvLseek fileno 0 (Inr 0) # evs \<and>
              (\<forall>e \<in> set evs. is_read e)) \<and>
         (\<forall>c. files w fileno = Some (c, 0) \<and> kst w' = kst w \<longrightarrow>
              (\<exists>w''. digest K self fileno n w' = Some (Inr buff, w'') \<and>
                     files w'' fileno = Some (c, 0)))"
proof -
  from digest_returns[OF run] obtain c p m evs where
    f: "files w fileno = Some (c, p)" "files w' = (files w)(fileno \<mapsto> (c, 0))"
    and t: "trace w' = trace w @ EvSendfile (hd_fileno self) fileno (take n (drop p c)) (Inr m)
                                # EvLseek fileno 0 (Inr 0) # evs"
    and r: "\<forall>e \<in> set evs. is_read e"
    by blast
  have a: "\<exists>c p. files w fileno = Some (c, p) \<and> files w' fileno = Some (c, 0)"
    using f by simp
  have b: "\<exists>bs m evs. new_events w w' =
              EvSendfile (hd_fileno self) fileno bs (Inr m) # EvLseek fileno 0 (Inr 0) # evs \<and>
              (\<forall>e \<in> set evs. is_read e)"
    using t r by (simp add: new_events_def)
  have c: "\<forall>c. files w fileno = Some (c, 0) \<and> kst w' = kst w \<longrightarrow>
              (\<exists>w''. digest K self fileno n w' = Some (Inr buff, w'') \<and>
                     files w'' fileno = Some (c, 0))"
  proof (intro allI impI)
    fix c0 assume h: "files w fileno = Some (c0, 0) \<and> kst w' = kst w"
    with f have "files w' = files w" by (simp add: fun_upd_idem)
    with h have same: "w\<lparr>trace := trace w'\<rparr> = w'" by simp
    from digest_relog[OF run, of "trace w'"] same
    have "digest K self fileno n w' = Some (Inr buff, w'\<lparr>trace := trace w' @ new_events w w'\<rparr>)"
      by simp
    moreover have "files (w'\<lparr>trace := trace w' @ new_events w w'\<rparr>) fileno = Some (c0, 0)"
      using \<open>files w' = files w\<close> h by simp
    ultimately show "\<exists>w''. digest K self fileno n w' = Some (Inr buff, w'') \<and>
                     files w'' fileno = Some (c0, 0)"
      by blast
  qed
  from a b c show ?thesis by (intro conjI)
qed

text \<open>Two calls in a row on the three-byte file.\<close>

theorem digest_restores_read_position_witness:
  "\<exists>w'. digest K0 desc4 5 3 w5 = Some (Inr [0xAB, 0xAB, 0xAB, 0xAB], w') \<and>
     files w5 5 = Some ([1, 2, 3], 0) \<and> kst w' = kst w5 \<and>
     files w' 5 = Some ([1, 2, 3], 0) \<and>
     (\<exists>w''. digest K0 desc4 5 3 w' = Some (Inr [0xAB, 0xAB, 0xAB, 0xAB], w'') \<and>
            files w'' 5 = Some ([1, 2, 3], 0))"
proof -
  from digest_K0 obtain w' where
    run: "digest K0 desc4 5 3 w5 = Some (Inr [0xAB, 0xAB, 0xAB, 0xAB], w')" by blast
  have f: "files w5 5 = Some ([1, 2, 3], 0)" by (simp add: w5_def)
  have k: "kst w' = kst w5" by simp
  note th = digest_restores_read_position[OF run]
  from th f have f': "files w' 5 = Some ([1, 2, 3], 0)" by auto
  from th f k have "\<exists>w''. digest K0 desc4 5 3 w' = Some (Inr [0xAB, 0xAB, 0xAB, 0xAB], w'') \<and>
            files w'' 5 = Some ([1, 2, 3], 0)" by blast
  with run f k f' show ?thesis by blast
qed

section \<open>Construction of a Hash object\<close>

text \<open>The five ways \<^verbatim>\<open>Hash.__init__\<close> ends, each with what it has logged: the socket
  refused; the bind refused; the key refused; a keyed object; an object without key.\<close>

lemma Hash_init_log:
  assumes "Hash_init K c w = (r, w')"
  shows
   "(\<exists>errno. r = Inl (OSError errno) \<and>
        fst (k_socket K (kst w) AF_ALG SOCK_SEQPACKET 0) = Inl errno \<and>
        trace w' = trace w @ [EvSocket AF_ALG SOCK_SEQPACKET 0 (Inl errno)]) \<or>
    (\<exists>s a b n. r = Inl (OSError n) \<and> b < 0 \<and>
        fst (k_socket K (kst w) AF_ALG SOCK_SEQPACKET 0) = Inr s \<and>
        trace w' = trace w @ [EvSocket AF_ALG SOCK_SEQPACKET 0 (Inr s), EvBind s a b, EvClose s]) \<or>
    (\<exists>s a b b2 n. c = HashCRC32C \<and> r = Inl (OSError n) \<and> 0 \<le> b \<and> b2 < 0 \<and>
        fst (k_socket K (kst w) AF_ALG SOCK_SEQPACKET 0) = Inr s \<and>
        trace w' = trace w @
          [EvSocket AF_ALG SOCK_SEQPACKET 0 (Inr s), EvBind s a b,
           EvSetsockopt s SOL_ALG ALG_SET_KEY (replicate 4 0xFF) 4 b2, EvClose s]) \<or>
    (\<exists>s a b b2 h. c = HashCRC32C \<and> r = Inr h \<and> sock h = s \<and> cls h = c \<and> 0 \<le> b \<and> 0 \<le> b2 \<and>
        salg_name a = ALG_NAME c \<and> salg_type a = ALG_TYPE \<and>
        trace w' = trace w @
          [EvSocket AF_ALG SOCK_SEQPACKET 0 (Inr s), EvBind s a b,
           EvSetsockopt s SOL_ALG ALG_SET_KEY (replicate 4 0xFF) 4 b2]) \<or>
    (\<exists>s a b h. c \<noteq> HashCRC32C \<and> r = Inr h \<and> sock h = s \<and> cls h = c \<and> 0 \<le> b \<and>
        salg_name a = ALG_NAME c \<and> salg_type a = ALG_TYPE \<and>
        trace w' = trace w @ [EvSocket AF_ALG SOCK_SEQPACKET 0 (Inr s), EvBind s a b])"
  using assms
  unfolding Hash_init_def prepare_def socket_socket_def libc_bind_def libc_setsockopt_def
    os_close_def emit_def Let_def
  by (auto split: prod.splits sum.splits if_splits hash_class.splits)

lemma Hash_init_summary:
  assumes "Hash_init K c w = (r, w')"
  shows "\<exists>evs. trace w' = trace w @ evs \<and> length (filter is_socket evs) = 1 \<and>
           (\<forall>e \<in> set evs. \<not> is_accept e)"
  using Hash_init_log[OF assms] by (elim disjE exE conjE) simp_all


section \<open>The session scope and the file loop\<close>

lemma Hash_open_cases:
  assumes run: "Hash_open K h body w = Some (r, w')"
  shows "(\<exists>fd n. fd < 0 \<and> r = Inl (OSError n) \<and> trace w' = trace w @ [EvAccept (sock h) fd]) \<or>
         (\<exists>fd w1 w2. 0 \<le> fd \<and> fd = fst (fst (k_accept K (kst w) (sock h))) \<and>
            trace w1 = trace w @ [EvAccept (sock h) fd] \<and>
            body \<lparr>hd_fileno = fd, digestsize = ALG_BYTE (cls h)\<rparr> w1 = Some (r, w2) \<and>
            w' = os_close fd w2)"
proof -
  obtain fd n w1 where acc: "libc_accept K (sock h) w = ((fd, n), w1)"
    by (cases "libc_accept K (sock h) w") auto
  then have t: "trace w1 = trace w @ [EvAccept (sock h) fd]"
    and k: "fd = fst (fst (k_accept K (kst w) (sock h)))"
    by (auto simp: libc_accept_def emit_def split: prod.splits)
  show ?thesis
  proof (cases "fd < 0")
    case True
    with run acc have "r = Inl (OSError n)" "w' = w1" by (simp_all add: Hash_open_def)
    with t True have "\<exists>fd n. fd < 0 \<and> r = Inl (OSError n) \<and> trace w' = trace w @ [EvAccept (sock h) fd]"
      by auto
    then show ?thesis by (rule disjI1)
  next
    case False
    with run acc obtain w2 where
      "body \<lparr>hd_fileno = fd, digestsize = ALG_BYTE (cls h)\<rparr> w1 = Some (r, w2)"
      "w' = os_close fd w2"
      by (auto simp: Hash_open_def split: option.splits)
    with t k False have "\<exists>fd w1 w2. 0 \<le> fd \<and> fd = fst (fst (k_accept K (kst w) (sock h))) \<and>
            trace w1 = trace w @ [EvAccept (sock h) fd] \<and>
            body \<lparr>hd_fileno = fd, digestsize = ALG_BYTE (cls h)\<rparr> w1 = Some (r, w2) \<and>
            w' = os_close fd w2"
      by (intro exI[of _ fd] exI[of _ w1] exI[of _ w2]) simp
    then show ?thesis by (rule disjI2)
  qed
qed

lemma os_close_trace: "trace (os_close fd w) = trace w @ [EvClose fd]"
  by (simp add: os_close_def emit_def)

lemma inner_event_file_event: "inner_event fd f e \<Longrightarrow> file_event fd e"
  by (cases e) simp_all

lemma loop_reads_inner:
  "loop_reads fd d acc evs \<Longrightarrow> \<forall>e \<in> set evs. inner_event fd f e \<and> \<not> is_print e"
proof (induction evs arbitrary: acc)
  case Nil
  show ?case by simp
next
  case (Cons e evs)
  then show ?case
    by (cases e) (auto split: sum.splits)
qed

lemma digest_file_events:
  assumes run: "digest K self fileno n w = Some (r, w')"
  shows "\<exists>evs. trace w' = trace w @ evs \<and>
           (\<forall>e \<in> set evs. inner_event (hd_fileno self) fileno e \<and> \<not> is_print e)"
  using run
proof (cases rule: digest_cases)
  case (sendfile_raised e)
  from os_sendfile_raised[OF sendfile_raised(1)] show ?thesis by auto
next
  case (lseek_raised m w1 e)
  from os_sendfile_ok[OF lseek_raised(1)] os_lseek_raised[OF lseek_raised(2)]
  show ?thesis by auto
next
  case (looped m w1 p w2)
  from read_loop_sound[OF looped(3)] obtain evs where
    r: "trace w' = trace w2 @ evs" "loop_reads (hd_fileno self) (digestsize self) 0 evs"
    by auto
  from loop_reads_inner[OF r(2), of fileno] r(1)
    os_sendfile_ok[OF looped(1)] os_lseek_ok[OF looped(2)]
  show ?thesis by auto
qed

lemma fcntl_flock_log:
  "fcntl_flock K fd w = (r, w') \<Longrightarrow> \<exists>res. trace w' = trace w @ [EvFlock fd res]"
  by (auto simp: fcntl_flock_def emit_def split: prod.splits)

lemma os_fstat_size_log:
  "os_fstat_size fd w = (r, w') \<Longrightarrow> \<exists>res. trace w' = trace w @ [EvFstat fd res]"
  by (auto simp: os_fstat_size_def emit_def split: option.splits prod.splits)

lemma builtin_open_log:
  "builtin_open K path w = (r, w') \<Longrightarrow> \<exists>res. trace w' = trace w @ [EvOpen path res]"
  by (auto simp: builtin_open_def emit_def split: prod.splits sum.splits)

lemma hash_one_log:
  assumes run: "hash_one K desc path fileno w = Some (r, w')"
  shows "\<exists>evs. trace w' = trace w @ evs \<and>
           (\<forall>e \<in> set evs. inner_event (hd_fileno desc) fileno e) \<and>
           length (filter is_print evs) = (case r of Inl e \<Rightarrow> 0 | Inr u \<Rightarrow> 1)"
proof -
  obtain a w1 where fl: "fcntl_flock K fileno w = (a, w1)"
    by (cases "fcntl_flock K fileno w")
  from fcntl_flock_log[OF fl] obtain res1 where t1: "trace w1 = trace w @ [EvFlock fileno res1]"
    by blast
  show ?thesis
  proof (cases a)
    case (Inl e)
    with run fl have "r = Inl e" "w' = w1" by (simp_all add: hash_one_def)
    with t1 show ?thesis by simp
  next
    case (Inr u)
    obtain b w2 where fs: "os_fstat_size fileno w1 = (b, w2)"
      by (cases "os_fstat_size fileno w1")
    from os_fstat_size_log[OF fs] obtain res2 where t2: "trace w2 = trace w1 @ [EvFstat fileno res2]"
      by blast
    show ?thesis
    proof (cases b)
      case (Inl e)
      with run fl fs \<open>a = Inr u\<close> have "r = Inl e" "w' = w2" by (simp_all add: hash_one_def)
      with t1 t2 show ?thesis by simp
    next
      case (Inr n)
      with run fl fs \<open>a = Inr u\<close> obtain y where
        d: "digest K desc fileno n w2 = Some y"
        by (cases "digest K desc fileno n w2") (simp_all add: hash_one_def)
      obtain dr w3 where y: "y = (dr, w3)" by (cases y)
      from digest_file_events[OF d[unfolded y]] obtain evs where
        t3: "trace w3 = trace w2 @ evs"
            "\<forall>e \<in> set evs. inner_event (hd_fileno desc) fileno e \<and> \<not> is_print e"
        by blast
      from t3(2) have np: "filter is_print evs = []" by (simp add: filter_empty_conv)
      show ?thesis
      proof (cases dr)
        case (Inl e)
        with run fl fs d y \<open>a = Inr u\<close> \<open>b = Inr n\<close> have "r = Inl e" "w' = w3"
          by (simp_all add: hash_one_def)
        with t1 t2 t3 np show ?thesis by simp
      next
        case (Inr dg)
        with run fl fs d y \<open>a = Inr u\<close> \<open>b = Inr n\<close> have
          "r = Inr ()" "w' = emit (EvPrint (hexlify dg @ ''  '' @ path)) w3"
          by (simp_all add: hash_one_def)
        with t1 t2 t3 np show ?thesis by (simp add: emit_def)
      qed
    qed
  qed
qed

lemma files_log_block:
  "\<forall>e \<in> set inner. inner_event fd f e \<Longrightarrow>
     files_log fd (Some f) (inner @ EvClose f # rest) = files_log fd None rest"
proof (induction inner)
  case Nil
  show ?case by simp
next
  case (Cons e inner)
  then show ?case by (cases e) simp_all
qed


lemma hash_files_log:
  "hash_files K desc paths w = Some (r, w') \<Longrightarrow>
     \<exists>evs. trace w' = trace w @ evs \<and>
       (\<forall>e \<in> set evs. file_event (hd_fileno desc) e) \<and>
       (r = Inr () \<longrightarrow> length (filter is_print evs) = length paths) \<and>
       files_log (hd_fileno desc) None evs"
proof (induction paths arbitrary: w)
  case Nil
  then show ?case by simp
next
  case (Cons path paths)
  obtain a w1 where op: "builtin_open K path w = (a, w1)"
    by (cases "builtin_open K path w")
  show ?case
  proof (cases a)
    case (Inl e)
    with Cons.prems op have r: "r = Inl e" "w' = w1" by simp_all
    from op Inl obtain errno where "trace w1 = trace w @ [EvOpen path (Inl errno)]"
      by (auto simp: builtin_open_def emit_def split: prod.splits sum.splits)
    with r show ?thesis by simp
  next
    case (Inr fileno)
    from op Inr have t1: "trace w1 = trace w @ [EvOpen path (Inr fileno)]"
      by (auto simp: builtin_open_def emit_def split: prod.splits sum.splits)
    from Cons.prems op Inr obtain y where
      h: "hash_one K desc path fileno w1 = Some y"
      by (cases "hash_one K desc path fileno w1") simp_all
    obtain hr w2 where y: "y = (hr, w2)" by (cases y)
    from hash_one_log[OF h[unfolded y]] obtain evs where
      t2: "trace w2 = trace w1 @ evs" "\<forall>e \<in> set evs. inner_event (hd_fileno desc) fileno e"
          "length (filter is_print evs) = (case hr of Inl e \<Rightarrow> 0 | Inr u \<Rightarrow> 1)"
      by blast
    from t2(2) have fe: "\<forall>e \<in> set evs. file_event (hd_fileno desc) e"
      using inner_event_file_event by blast
    show ?thesis
    proof (cases hr)
      case (Inl e)
      with Cons.prems op h y \<open>a = Inr fileno\<close> have r: "r = Inl e" "w' = os_close fileno w2"
        by simp_all
      let ?all = "EvOpen path (Inr fileno) # evs @ EvClose fileno # []"
      have "trace w' = trace w @ ?all" using r t1 t2(1) by (simp add: os_close_trace)
      moreover have "\<forall>e \<in> set ?all. file_event (hd_fileno desc) e" using fe by auto
      moreover have "files_log (hd_fileno desc) None ?all"
        using files_log_block[OF t2(2), of "[]"] by simp
      ultimately show ?thesis using r(1) by blast
    next
      case (Inr u)
      with Cons.prems op h y \<open>a = Inr fileno\<close> have
        "hash_files K desc paths (os_close fileno w2) = Some (r, w')" by simp
      from Cons.IH[OF this] obtain evs' where
        t3: "trace w' = trace (os_close fileno w2) @ evs'"
            "\<forall>e \<in> set evs'. file_event (hd_fileno desc) e"
            "r = Inr () \<longrightarrow> length (filter is_print evs') = length paths"
            "files_log (hd_fileno desc) None evs'"
        by blast
      let ?all = "EvOpen path (Inr fileno) # evs @ EvClose fileno # evs'"
      have "trace w' = trace w @ ?all" using t1 t2(1) t3(1) by (simp add: os_close_trace)
      moreover have "\<forall>e \<in> set ?all. file_event (hd_fileno desc) e" using fe t3(2) by auto
      moreover have "r = Inr () \<longrightarrow> length (filter is_print ?all) = length (path # paths)"
        using t2(3) t3(3) Inr by simp
      moreover have "files_log (hd_fileno desc) None ?all"
        using files_log_block[OF t2(2), of evs'] t3(4) by simp
      ultimately show ?thesis by blast
    qed
  qed
qed

section \<open>A run of main\<close>

lemma digs_registered: "name \<in> set digs \<Longrightarrow> \<exists>c. algorithm name = Some c"
  by (auto simp: digs_def algorithm_keys_def algorithm_def subclasses_def)

lemma file_event_not_session: "file_event fd e \<Longrightarrow> \<not> is_socket e \<and> \<not> is_accept e"
  by (cases e) simp_all

text \<open>The four ways \<^verbatim>\<open>main\<close> ends: argparse refuses the name; the construction raises;
  \<^verbatim>\<open>accept\<close> fails; the session scope is entered and left.\<close>

lemma main_log:
  assumes run: "main K alg paths w = Some (r, w')"
  shows
   "(r = Inl (SystemExit 2) \<and> w' = w) \<or>
    (\<exists>c e. algorithm (case alg of None \<Rightarrow> ''crc32c'' | Some a \<Rightarrow> a) = Some c \<and>
        Hash_init K c w = (Inl e, w') \<and> r = Inl e) \<or>
    (\<exists>c h w1 fd n. algorithm (case alg of None \<Rightarrow> ''crc32c'' | Some a \<Rightarrow> a) = Some c \<and>
        Hash_init K c w = (Inr h, w1) \<and> fd < 0 \<and> r = Inl (OSError n) \<and>
        trace w' = trace w1 @ [EvAccept (sock h) fd]) \<or>
    (\<exists>c h w1 fd evs. algorithm (case alg of None \<Rightarrow> ''crc32c'' | Some a \<Rightarrow> a) = Some c \<and>
        Hash_init K c w = (Inr h, w1) \<and> 0 \<le> fd \<and>
        trace w' = trace w1 @ EvAccept (sock h) fd # evs @ [EvClose fd, EvClose (sock h)] \<and>
        (\<forall>e \<in> set evs. file_event fd e) \<and>
        (r = Inr () \<longrightarrow> length (filter is_print evs) = length paths) \<and>
        files_log fd None evs)"
proof -
  let ?name = "case alg of None \<Rightarrow> ''crc32c'' | Some a \<Rightarrow> a"
  show ?thesis
  proof (cases "?name \<in> set digs")
    case False
    with run have "r = Inl (SystemExit 2) \<and> w' = w" by (simp add: main_def)
    then show ?thesis by (rule disjI1)
  next
    case True
    from digs_registered[OF True] obtain c where c: "algorithm ?name = Some c" by blast
    obtain a w1 where ini: "Hash_init K c w = (a, w1)" by (cases "Hash_init K c w")
    with c have inst: "instance_of K ?name w = (a, w1)" by (simp add: instance_of_def)
    show ?thesis
    proof (cases a)
      case (Inl e)
      with run True inst have "r = Inl e" "w' = w1" by (simp_all add: main_def)
      with c ini Inl have "\<exists>c e. algorithm ?name = Some c \<and>
        Hash_init K c w = (Inl e, w') \<and> r = Inl e" by blast
      then show ?thesis by (intro disjI2 disjI1)
    next
      case (Inr h)
      let ?failed = "fst (fst (libc_accept K (sock h) w1)) < 0"
      from run True inst Inr obtain w2 where
        op: "Hash_open K h (\<lambda>desc. hash_files K desc paths) w1 = Some (r, w2)"
        and w': "w' = (if ?failed then w2 else Hash_del h w2)"
        by (cases "Hash_open K h (\<lambda>desc. hash_files K desc paths) w1")
           (auto simp: main_def)
      have acc: "fst (fst (libc_accept K (sock h) w1)) = fst (fst (k_accept K (kst w1) (sock h)))"
        by (simp add: libc_accept_def split: prod.splits)
      from Hash_open_cases[OF op] show ?thesis
      proof (elim disjE exE conjE)
        fix fd n
        assume neg: "fd < 0" and r: "r = Inl (OSError n)"
          and t: "trace w2 = trace w1 @ [EvAccept (sock h) fd]"
        from op neg t have "?failed"
          by (auto simp: Hash_open_def libc_accept_def emit_def os_close_trace
              split: prod.splits if_splits option.splits)
        with w' have "w' = w2" by simp
        with t neg r c ini Inr
        have "\<exists>c h w1 fd n. algorithm ?name = Some c \<and>
          Hash_init K c w = (Inr h, w1) \<and> fd < 0 \<and> r = Inl (OSError n) \<and>
          trace w' = trace w1 @ [EvAccept (sock h) fd]"
          by (intro exI[of _ c] exI[of _ h] exI[of _ w1] exI[of _ fd] exI[of _ n]) simp
        then show ?thesis by (intro disjI2 disjI1)
      next
        fix fd wa wb
        assume fd: "0 \<le> fd" and k: "fd = fst (fst (k_accept K (kst w1) (sock h)))"
          and ta: "trace wa = trace w1 @ [EvAccept (sock h) fd]"
          and body: "hash_files K \<lparr>hd_fileno = fd, digestsize = ALG_BYTE (cls h)\<rparr> paths wa = Some (r, wb)"
          and w2: "w2 = os_close fd wb"
        from fd k acc have "\<not> ?failed" by simp
        with w' have "w' = Hash_del h w2" by simp
        then have tw': "trace w' = trace w2 @ [EvClose (sock h)]"
          by (simp add: Hash_del_def os_close_trace)
        from hash_files_log[OF body] obtain evs where
          e: "trace wb = trace wa @ evs" "\<forall>e \<in> set evs. file_event fd e"
             "r = Inr () \<longrightarrow> length (filter is_print evs) = length paths"
             "files_log fd None evs"
          by auto
        have "trace w' = trace w1 @ EvAccept (sock h) fd # evs @ [EvClose fd, EvClose (sock h)]"
          using tw' w2 e(1) ta by (simp add: os_close_trace)
        with fd e(2,3,4) c ini Inr
        have "\<exists>c h w1 fd evs. algorithm ?name = Some c \<and>
          Hash_init K c w = (Inr h, w1) \<and> 0 \<le> fd \<and>
          trace w' = trace w1 @ EvAccept (sock h) fd # evs @ [EvClose fd, EvClose (sock h)] \<and>
          (\<forall>e \<in> set evs. file_event fd e) \<and>
          (r = Inr () \<longrightarrow> length (filter is_print evs) = length paths) \<and>
          files_log fd None evs"
          by (intro exI[of _ c] exI[of _ h] exI[of _ w1] exI[of _ fd] exI[of _ evs]) simp
        then show ?thesis by (intro disjI2)
      qed
    qed
  qed
qed

lemma first_accept:
  "xs @ EvAccept s fd # ys = pre @ EvAccept s' fd' # post \<Longrightarrow>
     \<forall>e \<in> set xs. \<not> is_accept e \<Longrightarrow> \<forall>e \<in> set ys. \<not> is_accept e \<Longrightarrow>
     pre = xs \<and> s' = s \<and> fd' = fd \<and> post = ys"
proof (induction xs arbitrary: pre)
  case Nil
  then show ?case by (cases pre) auto
next
  case (Cons x xs)
  then show ?case by (cases pre) auto
qed

lemma crc32c_registered: "algorithm ''crc32c'' = Some HashCRC32C"
  by (simp add: algorithm_def subclasses_def)

lemma registered_sizes: "algorithm name = Some c \<Longrightarrow> 0 < ALG_BYTE c"
  by (cases c) simp_all

text \<open>A run of \<^verbatim>\<open>main\<close> with the default algorithm on one file.\<close>

lemma main_K0_one_file:
  "\<exists>w2. main K0 None [''a''] w0 = Some (Inr (), w2) \<and>
     trace w2 =
       [EvSocket 38 5 0 (Inr 3),
        EvBind 3 \<lparr>salg_family = 38, salg_type = ''hash'', salg_feat = 0, salg_mask = 0,
                  salg_name = ''crc32c''\<rparr> 0,
        EvSetsockopt 3 279 1 [255, 255, 255, 255] 4 0] @
       EvAccept 3 4 #
       [EvOpen ''a'' (Inr 5), EvFlock 5 (Inr ()), EvFstat 5 (Inr 3),
        EvSendfile 4 5 [1, 2, 3] (Inr 3), EvLseek 5 0 (Inr 0),
        EvRead 4 4 (Inr [171, 171, 171, 171]), EvPrint ''abababab  a'',
        EvClose 5, EvClose 4, EvClose 3]"
proof -
  have "map_option (\<lambda>(r, w). (r, trace w)) (main K0 None [''a''] w0) =
    Some (Inr (),
       [EvSocket 38 5 0 (Inr 3),
        EvBind 3 \<lparr>salg_family = 38, salg_type = ''hash'', salg_feat = 0, salg_mask = 0,
                  salg_name = ''crc32c''\<rparr> 0,
        EvSetsockopt 3 279 1 [255, 255, 255, 255] 4 0] @
       EvAccept 3 4 #
       [EvOpen ''a'' (Inr 5), EvFlock 5 (Inr ()), EvFstat 5 (Inr 3),
        EvSendfile 4 5 [1, 2, 3] (Inr 3), EvLseek 5 0 (Inr 0),
        EvRead 4 4 (Inr [171, 171, 171, 171]), EvPrint ''abababab  a'',
        EvClose 5, EvClose 4, EvClose 3])"
    by code_simp
  then show ?thesis by (cases "main K0 None [''a''] w0") auto
qed

section \<open>A construction that fails\<close>

text \<open>
  C5.  When the socket was created and \<^verbatim>\<open>Hash.__init__\<close> raises, the failure is the bind
  (its return value is negative) or, for \<^verbatim>\<open>HashCRC32C\<close>, the setting of the key after a
  bind that succeeded; in both cases closing the socket is the last thing the
  constructor does before it raises, and the calls it has made leave no descriptor open.
\<close>

theorem failed_construction_closes_socket:
  assumes sk: "fst (k_socket K (kst w) AF_ALG SOCK_SEQPACKET 0) = Inr s"
    and fail: "Hash_init K c w = (Inl e, w')"
  shows "((\<exists>a b. b < 0 \<and>
            new_events w w' =
              [EvSocket AF_ALG SOCK_SEQPACKET 0 (Inr s), EvBind s a b, EvClose s]) \<or>
          (\<exists>a b b2. c = HashCRC32C \<and> 0 \<le> b \<and> b2 < 0 \<and>
            new_events w w' =
              [EvSocket AF_ALG SOCK_SEQPACKET 0 (Inr s), EvBind s a b,
               EvSetsockopt s SOL_ALG ALG_SET_KEY (replicate 4 0xFF) 4 b2, EvClose s])) \<and>
         last (new_events w w') = EvClose s \<and>
         live [] (new_events w w') = []"
  using Hash_init_log[OF fail] sk
  by (elim disjE exE conjE) (simp_all add: new_events_def)

text \<open>A refused bind for \<^verbatim>\<open>md5\<close> and a refused key for \<^verbatim>\<open>crc32c\<close>.\<close>

theorem failed_construction_closes_socket_witness:
  "(\<exists>w'. Hash_init KNoBind HashMD5 w0 = (Inl (OSError 2), w') \<and>
      last (new_events w0 w') = EvClose 3 \<and> live [] (new_events w0 w') = []) \<and>
   (\<exists>w'. Hash_init KNoKey HashCRC32C w0 = (Inl (OSError 22), w') \<and>
      last (new_events w0 w') = EvClose 3 \<and> live [] (new_events w0 w') = [])"
proof -
  have s1: "fst (k_socket KNoBind (kst w0) AF_ALG SOCK_SEQPACKET 0) = Inr 3"
    by (simp add: KNoBind_def K0_def)
  have s2: "fst (k_socket KNoKey (kst w0) AF_ALG SOCK_SEQPACKET 0) = Inr 3"
    by (simp add: KNoKey_def K0_def)
  have "fst (Hash_init KNoBind HashMD5 w0) = Inl (OSError 2)" by code_simp
  then obtain w1 where r1: "Hash_init KNoBind HashMD5 w0 = (Inl (OSError 2), w1)"
    by (cases "Hash_init KNoBind HashMD5 w0") auto
  have "fst (Hash_init KNoKey HashCRC32C w0) = Inl (OSError 22)" by code_simp
  then obtain w2 where r2: "Hash_init KNoKey HashCRC32C w0 = (Inl (OSError 22), w2)"
    by (cases "Hash_init KNoKey HashCRC32C w0") auto
  from r1 failed_construction_closes_socket[OF s1 r1]
  have a: "\<exists>w'. Hash_init KNoBind HashMD5 w0 = (Inl (OSError 2), w') \<and>
      last (new_events w0 w') = EvClose 3 \<and> live [] (new_events w0 w') = []" by blast
  from r2 failed_construction_closes_socket[OF s2 r2]
  have b: "\<exists>w'. Hash_init KNoKey HashCRC32C w0 = (Inl (OSError 22), w') \<and>
      last (new_events w0 w') = EvClose 3 \<and> live [] (new_events w0 w') = []" by blast
  from a b show ?thesis by (rule conjI)
qed

section \<open>The key of CRC32C\<close>

text \<open>
  C7.  A construction of \<^verbatim>\<open>HashCRC32C\<close> that succeeds has made three calls: the socket,
  the bind, and \<^verbatim>\<open>setsockopt(SOL_ALG = 279, ALG_SET_KEY = 1)\<close> with the key of four
  bytes \<^verbatim>\<open>0xFF\<close>, as many as its digest size.  In a run of \<^verbatim>\<open>main\<close> under \<^verbatim>\<open>crc32c\<close>,
  what precedes an \<^verbatim>\<open>accept\<close> in the log is exactly these three calls, so the key is set
  before any session exists.  Every registered class has a positive digest size.
\<close>

theorem crc32c_keyed_before_any_session:
  "(Hash_init K HashCRC32C w = (Inr h, w') \<longrightarrow>
      (\<exists>a b b2. 0 \<le> b \<and> 0 \<le> b2 \<and>
         new_events w w' =
           [EvSocket AF_ALG SOCK_SEQPACKET 0 (Inr (sock h)), EvBind (sock h) a b,
            EvSetsockopt (sock h) SOL_ALG ALG_SET_KEY [0xFF, 0xFF, 0xFF, 0xFF]
              (ALG_BYTE HashCRC32C) b2])) \<and>
   ((case alg of None \<Rightarrow> ''crc32c'' | Some a \<Rightarrow> a) = ''crc32c'' \<and>
    main K alg paths w = Some (r, w2) \<and>
    new_events w w2 = pre @ EvAccept s fd # post \<longrightarrow>
      (\<exists>a b b2. 0 \<le> b2 \<and>
         pre = [EvSocket AF_ALG SOCK_SEQPACKET 0 (Inr s), EvBind s a b,
                EvSetsockopt s SOL_ALG ALG_SET_KEY [0xFF, 0xFF, 0xFF, 0xFF] 4 b2])) \<and>
   ALG_BYTE HashCRC32C = 4 \<and> SOL_ALG = 279 \<and> ALG_SET_KEY = 1 \<and>
   (\<forall>name c. algorithm name = Some c \<longrightarrow> 0 < ALG_BYTE c)"
proof (intro conjI impI allI)
  assume i: "Hash_init K HashCRC32C w = (Inr h, w')"
  from Hash_init_log[OF i]
  show "\<exists>a b b2. 0 \<le> b \<and> 0 \<le> b2 \<and>
         new_events w w' =
           [EvSocket AF_ALG SOCK_SEQPACKET 0 (Inr (sock h)), EvBind (sock h) a b,
            EvSetsockopt (sock h) SOL_ALG ALG_SET_KEY [0xFF, 0xFF, 0xFF, 0xFF]
              (ALG_BYTE HashCRC32C) b2]"
    by (elim disjE exE conjE) (simp_all add: new_events_def numeral_eq_Suc)
next
  assume h: "(case alg of None \<Rightarrow> ''crc32c'' | Some a \<Rightarrow> a) = ''crc32c'' \<and>
    main K alg paths w = Some (r, w2) \<and>
    new_events w w2 = pre @ EvAccept s fd # post"
  then have nm: "(case alg of None \<Rightarrow> ''crc32c'' | Some a \<Rightarrow> a) = ''crc32c''"
    and run: "main K alg paths w = Some (r, w2)"
    and ne: "new_events w w2 = pre @ EvAccept s fd # post" by simp_all
  have keyed: "\<exists>a b b2. 0 \<le> b2 \<and>
         pre = [EvSocket AF_ALG SOCK_SEQPACKET 0 (Inr s), EvBind s a b,
                EvSetsockopt s SOL_ALG ALG_SET_KEY [0xFF, 0xFF, 0xFF, 0xFF] 4 b2]"
    if ini: "Hash_init K HashCRC32C w = (Inr h, w1)"
      and t: "trace w2 = trace w1 @ EvAccept (sock h) fd0 # tl"
      and na: "\<forall>e \<in> set tl. \<not> is_accept e"
    for h w1 fd0 tl
  proof -
    from Hash_init_log[OF ini] obtain a b b2 where
      i: "0 \<le> b2"
         "trace w1 = trace w @ [EvSocket AF_ALG SOCK_SEQPACKET 0 (Inr (sock h)), EvBind (sock h) a b,
            EvSetsockopt (sock h) SOL_ALG ALG_SET_KEY (replicate 4 0xFF) 4 b2]"
      by (elim disjE exE conjE) simp_all
    let ?init = "[EvSocket AF_ALG SOCK_SEQPACKET 0 (Inr (sock h)), EvBind (sock h) a b,
            EvSetsockopt (sock h) SOL_ALG ALG_SET_KEY (replicate 4 0xFF) 4 b2]"
    have "?init @ EvAccept (sock h) fd0 # tl = pre @ EvAccept s fd # post"
      using ne t i(2) by (simp add: new_events_def)
    from first_accept[OF this _ na] have "pre = ?init" "s = sock h" by simp_all
    with i(1) show ?thesis by (simp add: numeral_eq_Suc)
  qed
  from main_log[OF run] show "\<exists>a b b2. 0 \<le> b2 \<and>
         pre = [EvSocket AF_ALG SOCK_SEQPACKET 0 (Inr s), EvBind s a b,
                EvSetsockopt s SOL_ALG ALG_SET_KEY [0xFF, 0xFF, 0xFF, 0xFF] 4 b2]"
    unfolding nm crc32c_registered
  proof (elim disjE exE conjE)
    assume "w2 = w"
    with ne show ?thesis by (simp add: new_events_def)
  next
    fix c e assume "Some HashCRC32C = Some c" "Hash_init K c w = (Inl e, w2)"
    from Hash_init_summary[OF this(2)] obtain evs where
      "trace w2 = trace w @ evs" "\<forall>e \<in> set evs. \<not> is_accept e" by blast
    with ne have "\<not> is_accept (EvAccept s fd)" by (auto simp: new_events_def)
    then show ?thesis by simp
  next
    fix c h w1 fd0 n
    assume "Some HashCRC32C = Some c" "Hash_init K c w = (Inr h, w1)"
      "trace w2 = trace w1 @ [EvAccept (sock h) fd0]"
    then show ?thesis using keyed[of h w1 fd0 "[]"] by simp
  next
    fix c h w1 fd0 evs
    assume "Some HashCRC32C = Some c" "Hash_init K c w = (Inr h, w1)"
      "trace w2 = trace w1 @ EvAccept (sock h) fd0 # evs @ [EvClose fd0, EvClose (sock h)]"
      "\<forall>e \<in> set evs. file_event fd0 e"
    moreover from this(4) have "\<forall>e \<in> set evs. \<not> is_accept e"
      using file_event_not_session by blast
    ultimately show ?thesis
      using keyed[of h w1 fd0 "evs @ [EvClose fd0, EvClose (sock h)]"] by simp
  qed
next
  show "ALG_BYTE HashCRC32C = 4" by simp
  show "SOL_ALG = 279" by (simp add: SOL_ALG_def)
  show "ALG_SET_KEY = 1" by (simp add: ALG_SET_KEY_def)
next
  fix name c assume "algorithm name = Some c"
  then show "0 < ALG_BYTE c" by (rule registered_sizes)
qed

text \<open>The default run on one file, and \<^verbatim>\<open>md5\<close> as a registered class.\<close>

theorem crc32c_keyed_before_any_session_witness:
  "(\<exists>h w'. Hash_init K0 HashCRC32C w0 = (Inr h, w') \<and>
      (\<exists>a b b2. 0 \<le> b \<and> 0 \<le> b2 \<and>
         new_events w0 w' =
           [EvSocket AF_ALG SOCK_SEQPACKET 0 (Inr (sock h)), EvBind (sock h) a b,
            EvSetsockopt (sock h) SOL_ALG ALG_SET_KEY [0xFF, 0xFF, 0xFF, 0xFF]
              (ALG_BYTE HashCRC32C) b2])) \<and>
   (\<exists>w2 pre post. main K0 None [''a''] w0 = Some (Inr (), w2) \<and>
      new_events w0 w2 = pre @ EvAccept 3 4 # post \<and>
      (\<exists>a b b2. 0 \<le> b2 \<and>
         pre = [EvSocket AF_ALG SOCK_SEQPACKET 0 (Inr 3), EvBind 3 a b,
                EvSetsockopt 3 SOL_ALG ALG_SET_KEY [0xFF, 0xFF, 0xFF, 0xFF] 4 b2])) \<and>
   algorithm ''md5'' = Some HashMD5 \<and> 0 < ALG_BYTE HashMD5"
proof -
  have "case fst (Hash_init K0 HashCRC32C w0) of Inl e \<Rightarrow> False | Inr h \<Rightarrow> True"
    by code_simp
  then obtain h w' where i: "Hash_init K0 HashCRC32C w0 = (Inr h, w')"
    by (cases "Hash_init K0 HashCRC32C w0") (auto split: sum.splits)
  note th1 = crc32c_keyed_before_any_session[of K0 w0 h w' None "[''a'']"]
  from i th1 have a: "\<exists>h w'. Hash_init K0 HashCRC32C w0 = (Inr h, w') \<and>
      (\<exists>a b b2. 0 \<le> b \<and> 0 \<le> b2 \<and>
         new_events w0 w' =
           [EvSocket AF_ALG SOCK_SEQPACKET 0 (Inr (sock h)), EvBind (sock h) a b,
            EvSetsockopt (sock h) SOL_ALG ALG_SET_KEY [0xFF, 0xFF, 0xFF, 0xFF]
              (ALG_BYTE HashCRC32C) b2])"
    by blast
  from main_K0_one_file obtain w2 pre post where
    m: "main K0 None [''a''] w0 = Some (Inr (), w2)" and t: "trace w2 = pre @ EvAccept 3 4 # post"
    by blast
  have ne: "new_events w0 w2 = pre @ EvAccept 3 4 # post"
    using t by (simp add: new_events_def w0_def)
  have nm: "(case None of None \<Rightarrow> ''crc32c'' | Some a \<Rightarrow> a) = ''crc32c''" by simp
  note th2 = crc32c_keyed_before_any_session[of K0 w0 h w' None "[''a'']" "Inr ()" w2 pre 3 4 post]
  from th2 nm m ne have "\<exists>a b b2. 0 \<le> b2 \<and>
         pre = [EvSocket AF_ALG SOCK_SEQPACKET 0 (Inr 3), EvBind 3 a b,
                EvSetsockopt 3 SOL_ALG ALG_SET_KEY [0xFF, 0xFF, 0xFF, 0xFF] 4 b2]"
    by blast
  with m ne have b: "\<exists>w2 pre post. main K0 None [''a''] w0 = Some (Inr (), w2) \<and>
      new_events w0 w2 = pre @ EvAccept 3 4 # post \<and>
      (\<exists>a b b2. 0 \<le> b2 \<and>
         pre = [EvSocket AF_ALG SOCK_SEQPACKET 0 (Inr 3), EvBind 3 a b,
                EvSetsockopt 3 SOL_ALG ALG_SET_KEY [0xFF, 0xFF, 0xFF, 0xFF] 4 b2])"
    by blast
  have c: "algorithm ''md5'' = Some HashMD5" by (simp add: algorithm_def subclasses_def)
  from th2 c have d: "0 < ALG_BYTE HashMD5" by blast
  from a b c d show ?thesis by (intro conjI)
qed


lemma main_KNoOpen:
  "\<exists>w2. main KNoOpen (Some ''md5'') [''a'', ''b''] w0 = Some (Inl (OSError 2), w2) \<and>
     trace w2 =
       [EvSocket 38 5 0 (Inr 3),
        EvBind 3 \<lparr>salg_family = 38, salg_type = ''hash'', salg_feat = 0, salg_mask = 0,
                  salg_name = ''md5''\<rparr> 0] @
       EvAccept 3 4 # [EvOpen ''a'' (Inl 2), EvClose 4, EvClose 3]"
proof -
  have "map_option (\<lambda>(r, w). (r, trace w)) (main KNoOpen (Some ''md5'') [''a'', ''b''] w0) =
    Some (Inl (OSError 2),
       [EvSocket 38 5 0 (Inr 3),
        EvBind 3 \<lparr>salg_family = 38, salg_type = ''hash'', salg_feat = 0, salg_mask = 0,
                  salg_name = ''md5''\<rparr> 0] @
       EvAccept 3 4 # [EvOpen ''a'' (Inl 2), EvClose 4, EvClose 3])"
    by code_simp
  then show ?thesis by (cases "main KNoOpen (Some ''md5'') [''a'', ''b''] w0") auto
qed

section \<open>Leaving the session scope\<close>

text \<open>
  C8.  When \<^verbatim>\<open>accept\<close> has returned a descriptor \<open>fd \<ge> 0\<close>, the scope of \<^verbatim>\<open>Hash.open\<close> ends
  with result \<open>r\<close> exactly when its block ends with \<open>r\<close>, be \<open>r\<close> a value or an exception,
  and the world it leaves is the block's with \<open>fd\<close> closed as the last logged call.  In
  \<^verbatim>\<open>main\<close>, where the loop over the files is the block, every run that ends after an
  \<^verbatim>\<open>accept\<close> that succeeded ends, whatever its result, with the close of that descriptor
  followed by the close of the socket.
\<close>

theorem session_closed_on_every_exit:
  "(libc_accept K (sock h) w = ((fd, n), w1) \<and> 0 \<le> fd \<longrightarrow>
      (Hash_open K h body w = Some (r, w')) =
      (\<exists>w2. body \<lparr>hd_fileno = fd, digestsize = ALG_BYTE (cls h)\<rparr> w1 = Some (r, w2) \<and>
            w' = os_close fd w2 \<and> trace w' = trace w2 @ [EvClose fd])) \<and>
   (main K alg paths wm = Some (rm, wm') \<and>
    new_events wm wm' = pre @ EvAccept s fd' # post \<and> 0 \<le> fd' \<longrightarrow>
      (\<exists>evs. post = evs @ [EvClose fd', EvClose s] \<and> (\<forall>e \<in> set evs. file_event fd' e)))"
proof (intro conjI impI)
  assume "libc_accept K (sock h) w = ((fd, n), w1) \<and> 0 \<le> fd"
  then show "(Hash_open K h body w = Some (r, w')) =
      (\<exists>w2. body \<lparr>hd_fileno = fd, digestsize = ALG_BYTE (cls h)\<rparr> w1 = Some (r, w2) \<and>
            w' = os_close fd w2 \<and> trace w' = trace w2 @ [EvClose fd])"
    by (auto simp: Hash_open_def os_close_trace split: option.splits)
next
  assume a: "main K alg paths wm = Some (rm, wm') \<and>
    new_events wm wm' = pre @ EvAccept s fd' # post \<and> 0 \<le> fd'"
  then have run: "main K alg paths wm = Some (rm, wm')"
    and ne: "new_events wm wm' = pre @ EvAccept s fd' # post" and ok: "0 \<le> fd'" by simp_all
  from main_log[OF run]
  show "\<exists>evs. post = evs @ [EvClose fd', EvClose s] \<and> (\<forall>e \<in> set evs. file_event fd' e)"
  proof (elim disjE exE conjE)
    assume "wm' = wm"
    with ne show ?thesis by (simp add: new_events_def)
  next
    fix c e assume "Hash_init K c wm = (Inl e, wm')"
    from Hash_init_summary[OF this] obtain evs where
      "trace wm' = trace wm @ evs" "\<forall>e \<in> set evs. \<not> is_accept e" by blast
    with ne have "\<not> is_accept (EvAccept s fd')" by (auto simp: new_events_def)
    then show ?thesis by simp
  next
    fix c h w1 fd0 n
    assume i: "Hash_init K c wm = (Inr h, w1)" and neg: "fd0 < 0"
      and t: "trace wm' = trace w1 @ [EvAccept (sock h) fd0]"
    from Hash_init_summary[OF i] obtain ini where
      ini: "trace w1 = trace wm @ ini" "\<forall>e \<in> set ini. \<not> is_accept e" by blast
    have "ini @ EvAccept (sock h) fd0 # [] = pre @ EvAccept s fd' # post"
      using ne t ini(1) by (simp add: new_events_def)
    from first_accept[OF this ini(2)] have "fd' = fd0" by simp
    with neg ok show ?thesis by simp
  next
    fix c h w1 fd0 evs
    assume i: "Hash_init K c wm = (Inr h, w1)"
      and t: "trace wm' = trace w1 @ EvAccept (sock h) fd0 # evs @ [EvClose fd0, EvClose (sock h)]"
      and fe: "\<forall>e \<in> set evs. file_event fd0 e"
    from Hash_init_summary[OF i] obtain ini where
      ini: "trace w1 = trace wm @ ini" "\<forall>e \<in> set ini. \<not> is_accept e" by blast
    from fe have na: "\<forall>e \<in> set (evs @ [EvClose fd0, EvClose (sock h)]). \<not> is_accept e"
      using file_event_not_session by auto
    have "ini @ EvAccept (sock h) fd0 # (evs @ [EvClose fd0, EvClose (sock h)]) =
          pre @ EvAccept s fd' # post"
      using ne t ini(1) by (simp add: new_events_def)
    from first_accept[OF this ini(2) na] have "s = sock h" "fd' = fd0"
      "post = evs @ [EvClose fd0, EvClose (sock h)]" by simp_all
    with fe show ?thesis by blast
  qed
qed

text \<open>The first file cannot be opened: the exception leaves the loop and the scope, and
  descriptor 4 is closed.\<close>

theorem session_closed_on_every_exit_witness:
  "(\<exists>w1 w2. libc_accept KNoOpen (sock md5_obj) w0 = ((4, 0), w1) \<and>
      hash_files KNoOpen \<lparr>hd_fileno = 4, digestsize = ALG_BYTE (cls md5_obj)\<rparr> [''a''] w1 =
        Some (Inl (OSError 2), w2) \<and>
      Hash_open KNoOpen md5_obj (\<lambda>desc. hash_files KNoOpen desc [''a'']) w0 =
        Some (Inl (OSError 2), os_close 4 w2) \<and>
      trace (os_close 4 w2) = trace w2 @ [EvClose 4]) \<and>
   (\<exists>w' pre post evs. main KNoOpen (Some ''md5'') [''a'', ''b''] w0 = Some (Inl (OSError 2), w') \<and>
      new_events w0 w' = pre @ EvAccept 3 4 # post \<and>
      post = evs @ [EvClose 4, EvClose 3] \<and> (\<forall>e \<in> set evs. file_event 4 e))"
proof -
  have "fst (libc_accept KNoOpen (sock md5_obj) w0) = (4, 0)" by code_simp
  then obtain w1 where acc: "libc_accept KNoOpen (sock md5_obj) w0 = ((4, 0), w1)"
    by (cases "libc_accept KNoOpen (sock md5_obj) w0") auto
  have "map_option fst
     (hash_files KNoOpen \<lparr>hd_fileno = 4, digestsize = ALG_BYTE (cls md5_obj)\<rparr> [''a'']
        (snd (libc_accept KNoOpen (sock md5_obj) w0))) = Some (Inl (OSError 2))"
    by code_simp
  with acc obtain w2 where
    body: "hash_files KNoOpen \<lparr>hd_fileno = 4, digestsize = ALG_BYTE (cls md5_obj)\<rparr> [''a''] w1 =
        Some (Inl (OSError 2), w2)"
    by (cases "hash_files KNoOpen \<lparr>hd_fileno = 4, digestsize = ALG_BYTE (cls md5_obj)\<rparr> [''a''] w1")
       auto
  note th = session_closed_on_every_exit
    [where K = KNoOpen and h = md5_obj and w = w0 and fd = 4 and n = 0 and ?w1.0 = w1
       and body = "\<lambda>desc. hash_files KNoOpen desc [''a'']" and r = "Inl (OSError 2)"
       and w' = "os_close 4 w2"]
  have t: "trace (os_close 4 w2) = trace w2 @ [EvClose 4]" by (rule os_close_trace)
  from th[THEN conjunct1] acc
  have eq: "(Hash_open KNoOpen md5_obj (\<lambda>desc. hash_files KNoOpen desc [''a'']) w0 =
        Some (Inl (OSError 2), os_close 4 w2)) =
      (\<exists>w2a. hash_files KNoOpen \<lparr>hd_fileno = 4, digestsize = ALG_BYTE (cls md5_obj)\<rparr> [''a''] w1 =
               Some (Inl (OSError 2), w2a) \<and>
             os_close 4 w2 = os_close 4 w2a \<and>
             trace (os_close 4 w2) = trace w2a @ [EvClose 4])"
    by simp
  have "\<exists>w2a. hash_files KNoOpen \<lparr>hd_fileno = 4, digestsize = ALG_BYTE (cls md5_obj)\<rparr> [''a''] w1 =
               Some (Inl (OSError 2), w2a) \<and>
             os_close 4 w2 = os_close 4 w2a \<and>
             trace (os_close 4 w2) = trace w2a @ [EvClose 4]"
    using body t by (intro exI[of _ w2]) simp
  with eq
  have "Hash_open KNoOpen md5_obj (\<lambda>desc. hash_files KNoOpen desc [''a'']) w0 =
        Some (Inl (OSError 2), os_close 4 w2)"
    by simp
  with acc body t have a: "\<exists>w1 w2. libc_accept KNoOpen (sock md5_obj) w0 = ((4, 0), w1) \<and>
      hash_files KNoOpen \<lparr>hd_fileno = 4, digestsize = ALG_BYTE (cls md5_obj)\<rparr> [''a''] w1 =
        Some (Inl (OSError 2), w2) \<and>
      Hash_open KNoOpen md5_obj (\<lambda>desc. hash_files KNoOpen desc [''a'']) w0 =
        Some (Inl (OSError 2), os_close 4 w2) \<and>
      trace (os_close 4 w2) = trace w2 @ [EvClose 4]"
    by blast
  from main_KNoOpen obtain w' pre post where
    m: "main KNoOpen (Some ''md5'') [''a'', ''b''] w0 = Some (Inl (OSError 2), w')"
    and tr: "trace w' = pre @ EvAccept 3 4 # post"
    by blast
  have ne: "new_events w0 w' = pre @ EvAccept 3 4 # post"
    using tr by (simp add: new_events_def w0_def)
  note th2 = session_closed_on_every_exit
    [where K = KNoOpen and alg = "Some ''md5''" and paths = "[''a'', ''b'']" and wm = w0
       and rm = "Inl (OSError 2)" and wm' = w' and pre = pre and s = 3 and fd' = 4 and post = post]
  from th2[THEN conjunct2] m ne
  have "\<exists>evs. post = evs @ [EvClose 4, EvClose 3] \<and> (\<forall>e \<in> set evs. file_event 4 e)"
    by simp
  with m ne have b: "\<exists>w' pre post evs.
      main KNoOpen (Some ''md5'') [''a'', ''b''] w0 = Some (Inl (OSError 2), w') \<and>
      new_events w0 w' = pre @ EvAccept 3 4 # post \<and>
      post = evs @ [EvClose 4, EvClose 3] \<and> (\<forall>e \<in> set evs. file_event 4 e)"
    by blast
  from a b show ?thesis by (rule conjI)
qed

section \<open>Sessions and files\<close>




end
